theory Spec2Isabelle
  imports Complex_Main "HOL-Library.Multiset" "HOL-Library.Char_ord" "HOL-Library.List_Lexorder"
begin

section \<open>The batched labelling pipeline of labeling_optimized.py\<close>

text \<open>
  The development follows \<^verbatim>\<open>src/labeling_optimized.py\<close>. Python exceptions are values of
  \<open>py_error\<close>; a list index or a count is a \<open>nat\<close>; \<^verbatim>\<open>None\<close> in the result table is
  \<open>None\<close> of an option type.
\<close>

datatype py_error =
    ZeroDivisionError | OverflowError | IndexError | AttributeError | TypeError | ValueError
  | JSONDecodeError | RetryError | ApiError | CancelledError

subsection \<open>Partitioning (main_async lines 243-245, handle_batch lines 278-280)\<close>

text \<open>
  Line 245 is \<^verbatim>\<open>num_batches = math.ceil(n / BATCH_SIZE)\<close>. The operator \<^verbatim>\<open>/\<close> on two
  integers gives a float: the binary64 number nearest to the quotient, a tie going to the
  even significand. It raises \<^verbatim>\<open>ZeroDivisionError\<close> for a divisor 0, which the command line
  accepts as batch size, and \<^verbatim>\<open>OverflowError\<close> when the rounded quotient is \<open>2 ^ 1024\<close> or
  more.
  A float is kept here as the rational number that it is.

  \<open>bit_length n\<close> is the number of binary digits of \<open>n\<close>, and \<open>binary_exponent a b\<close> the
  integer \<open>e\<close> with \<open>2 ^ e \<le> a / b < 2 ^ (e + 1)\<close>.
\<close>

fun bit_length :: "nat \<Rightarrow> nat" where
  "bit_length n = (if n = 0 then 0 else Suc (bit_length (n div 2)))"

definition binary_exponent :: "nat \<Rightarrow> nat \<Rightarrow> int" where
  "binary_exponent a b =
     (let d = int (bit_length a) - int (bit_length b)
      in if (of_nat a :: rat) / of_nat b < 2 powi d then d - 1 else d)"

text \<open>The integer nearest to \<open>x\<close>, the even one of the two when \<open>x\<close> lies halfway.\<close>

definition round_half_even :: "rat \<Rightarrow> int" where
  "round_half_even x =
     (let f = \<lfloor>x\<rfloor>; r = x - of_int f
      in if r < 1 / 2 then f else if 1 / 2 < r then f + 1 else if even f then f else f + 1)"

text \<open>
  \<^verbatim>\<open>a / b\<close> for two non-negative integers. A binary64 number has a significand of 53 binary
  digits, and its exponent is at least \<open>-1022\<close>: the quotient is rounded to a multiple of
  \<open>2 ^ (e - 52)\<close>, where \<open>e\<close> is its binary exponent, or of \<open>2 ^ (- 1074)\<close> when \<open>e\<close> is
  below \<open>-1022\<close>.
\<close>

definition true_divide :: "nat \<Rightarrow> nat \<Rightarrow> py_error + rat" where
  "true_divide a b =
     (if b = 0 then Inl ZeroDivisionError
      else if a = 0 then Inr 0
      else let ulp = 2 powi (max (binary_exponent a b) (- 1022) - 52);
               x = of_int (round_half_even (of_nat a / of_nat b / ulp)) * ulp
           in if 2 powi 1024 \<le> x then Inl OverflowError else Inr x)"

text \<open>\<^verbatim>\<open>math.ceil\<close> of a float is the least integer that is not below it.\<close>

definition num_batches :: "nat \<Rightarrow> nat \<Rightarrow> py_error + nat" where
  "num_batches n B =
     (case true_divide n B of
        Inl e \<Rightarrow> Inl e
      | Inr x \<Rightarrow> Inr (nat \<lceil>x\<rceil>))"

text \<open>\<^verbatim>\<open>start = batch_idx * BATCH_SIZE\<close> and \<^verbatim>\<open>end = min((batch_idx + 1) * BATCH_SIZE, n)\<close>.\<close>

definition batch_start :: "nat \<Rightarrow> nat \<Rightarrow> nat" where
  "batch_start B batch_idx = batch_idx * B"

definition batch_end :: "nat \<Rightarrow> nat \<Rightarrow> nat \<Rightarrow> nat" where
  "batch_end B n batch_idx = min ((batch_idx + 1) * B) n"

text \<open>
  A Python slice \<^verbatim>\<open>xs[s:e]\<close> with non-negative bounds: both bounds are clamped to the
  length, and the slice is empty when \<open>e \<le> s\<close>.
\<close>

definition py_slice :: "'a list \<Rightarrow> nat \<Rightarrow> nat \<Rightarrow> 'a list" where
  "py_slice xs s e = take (e - s) (drop s xs)"

text \<open>\<^verbatim>\<open>batch_texts = texts[start:end]\<close>, with \<^verbatim>\<open>n = len(texts)\<close>.\<close>

definition batch_texts :: "nat \<Rightarrow> 'a list \<Rightarrow> nat \<Rightarrow> 'a list" where
  "batch_texts B texts batch_idx =
     py_slice texts (batch_start B batch_idx) (batch_end B (length texts) batch_idx)"


subsection \<open>The service call and its retry policy (call_api, lines 152-167)\<close>

text \<open>
  The reply of the chat completion service, as far as the program reads it: the message
  content of each element of \<^verbatim>\<open>resp.choices\<close> (\<^verbatim>\<open>None\<close> when a message has no content).
\<close>

type_synonym response = "string option list"

text \<open>
  One call of \<^verbatim>\<open>client.chat.completions.create\<close> either returns a response or raises. The
  three exceptions named in \<^verbatim>\<open>retry_if_exception_type\<close> have constructors of their own;
  \<open>ApiError\<close> stands for any other exception of the client.
\<close>

datatype api_error = RateLimitError | APITimeoutError | APIConnectionError

type_synonym call_outcome = "(api_error + py_error) + response"

text \<open>
  \<^verbatim>\<open>retry=retry_if_exception_type((RateLimitError, APITimeoutError, APIConnectionError))\<close>
\<close>

fun retryable :: "call_outcome \<Rightarrow> bool" where
  "retryable (Inl (Inl e)) = True"
| "retryable (Inl (Inr e)) = False"
| "retryable (Inr resp) = False"

text \<open>
  The two policies of the tenacity library that the decorator configures, as the library
  documents them: \<^verbatim>\<open>wait_exponential(multiplier, min, max)\<close> waits
  \<^verbatim>\<open>multiplier * 2 ** (attempt_number - 1)\<close> seconds, clamped below by \<^verbatim>\<open>min\<close> and above by
  \<^verbatim>\<open>max\<close>, and \<^verbatim>\<open>stop_after_attempt(k)\<close> stops once \<^verbatim>\<open>attempt_number >= k\<close>.
  Attempts are numbered from 1.
\<close>

definition exponential_delay :: "nat \<Rightarrow> nat \<Rightarrow> nat" where
  "exponential_delay multiplier attempt_number = multiplier * 2 ^ (attempt_number - 1)"

definition wait_exponential :: "nat \<Rightarrow> nat \<Rightarrow> nat \<Rightarrow> nat \<Rightarrow> nat" where
  "wait_exponential multiplier min_wait max_wait attempt_number =
     max (max 0 min_wait) (min (exponential_delay multiplier attempt_number) max_wait)"

definition stop_after_attempt :: "nat \<Rightarrow> nat \<Rightarrow> bool" where
  "stop_after_attempt max_attempt_number attempt_number = (max_attempt_number \<le> attempt_number)"

text \<open>The decorator's arguments: \<^verbatim>\<open>multiplier=1, min=2, max=60\<close> and \<^verbatim>\<open>stop_after_attempt(5)\<close>.\<close>

definition call_api_wait :: "nat \<Rightarrow> nat" where
  "call_api_wait attempt_number = wait_exponential 1 2 60 attempt_number"

definition call_api_stop :: "nat \<Rightarrow> bool" where
  "call_api_stop attempt_number = stop_after_attempt 5 attempt_number"

text \<open>
  What a decorated call did: how it ended (\<open>Inl\<close> an exception that reaches the caller,
  \<open>RetryError\<close> when the attempts ran out), how many requests it sent and the seconds it
  slept before each retry.
\<close>

record call_log =
  returned :: "py_error + response"
  requests :: nat
  sleeps :: "nat list"

text \<open>
  \<open>attempts svc k\<close> runs the decorated \<^verbatim>\<open>call_api\<close> from attempt \<open>k\<close> on; \<open>svc k\<close> is the
  outcome of the \<open>k\<close>-th request. An exception that is not retryable reaches the caller as
  it is (here as \<open>ApiError\<close> when it is one of the client's); a retryable one ends the run
  with \<open>RetryError\<close> when the stop policy holds, and otherwise the call sleeps and tries
  again.
\<close>

function attempts :: "(nat \<Rightarrow> call_outcome) \<Rightarrow> nat \<Rightarrow> call_log" where
  "attempts svc attempt_number =
     (case svc attempt_number of
        Inr resp \<Rightarrow> \<lparr>returned = Inr resp, requests = attempt_number, sleeps = []\<rparr>
      | Inl (Inr e) \<Rightarrow> \<lparr>returned = Inl e, requests = attempt_number, sleeps = []\<rparr>
      | Inl (Inl e) \<Rightarrow>
          if call_api_stop attempt_number
          then \<lparr>returned = Inl RetryError, requests = attempt_number, sleeps = []\<rparr>
          else (let r = attempts svc (attempt_number + 1)
                in r\<lparr>sleeps := call_api_wait attempt_number # sleeps r\<rparr>))"
  by pat_completeness auto
termination
  by (relation "measure (\<lambda>(svc, k). 5 - k)")
     (auto simp: call_api_stop_def stop_after_attempt_def)

definition call_api :: "(nat \<Rightarrow> call_outcome) \<Rightarrow> call_log" where
  "call_api svc = attempts svc 1"

subsection \<open>Annotating one batch (label_batch_async, lines 170-214)\<close>

text \<open>
  \<^verbatim>\<open>reviews_payload = [{"id": i, "text": str(t)} for i, t in enumerate(texts)]\<close>: every text
  of the batch goes out with its position in the batch as its id. The two prompts around the
  payload are constants, so the payload stands for the request.
\<close>

definition reviews_payload :: "string list \<Rightarrow> (nat \<times> string) list" where
  "reviews_payload texts = zip [0..<length texts] texts"

text \<open>The service: the outcome of the \<open>k\<close>-th request (from 1) that carries a payload.\<close>

type_synonym service = "(nat \<times> string) list \<Rightarrow> nat \<Rightarrow> call_outcome"

text \<open>
  Strings are lists of 8-bit characters, read as the code points 0 to 255. \<^verbatim>\<open>str.strip()\<close>
  removes the white space of Python at both ends; below 256 that is 9 to 13, 28 to 32, 133
  and 160.
\<close>

definition is_space :: "char \<Rightarrow> bool" where
  "is_space c =
     (let n = (of_char c :: nat)
      in (9 \<le> n \<and> n \<le> 13) \<or> (28 \<le> n \<and> n \<le> 32) \<or> n = 133 \<or> n = 160)"

definition py_strip :: "string \<Rightarrow> string" where
  "py_strip s = rev (dropWhile is_space (rev (dropWhile is_space s)))"

definition startswith :: "string \<Rightarrow> string \<Rightarrow> bool" where
  "startswith s p = (take (length p) s = p)"

text \<open>The Markdown fence of three backquotes (code point 96).\<close>

definition fence :: string where
  "fence = [CHR 0x60, CHR 0x60, CHR 0x60]"

text \<open>The text before the first fence in \<open>s\<close>, or all of \<open>s\<close> when it has none.\<close>

fun before_fence :: "string \<Rightarrow> string" where
  "before_fence [] = []"
| "before_fence (c # cs) = (if startswith (c # cs) fence then [] else c # before_fence cs)"

text \<open>
  Lines 191-195. When the content starts with a fence, \<^verbatim>\<open>content.split(fence)[1]\<close> is the
  text between that fence and the next one (or the end); a leading \<^verbatim>\<open>json\<close> is cut off with
  \<^verbatim>\<open>content[4:]\<close>. Then \<^verbatim>\<open>content = content.strip()\<close>.
\<close>

definition strip_code_fence :: "string \<Rightarrow> string" where
  "strip_code_fence content =
     py_strip
       (if startswith content fence
        then (let inner = before_fence (drop 3 content)
              in if startswith inner ''json'' then drop 4 inner else inner)
        else content)"

text \<open>
  What \<^verbatim>\<open>json.loads\<close> gives, as far as the program looks into it. The value under the key
  \<^verbatim>\<open>"id"\<close> of an object is an integer (the JSON booleans count as 1 and 0, as Python
  compares them), a string, null or an object; ids that are fractions or arrays are not
  represented. The other keys and values of an object are its fields, of any type \<open>'a\<close>.
  An element of the list that is not an object is \<open>NonObject\<close>, a document that is not a
  list is \<open>NonList\<close>.
\<close>

datatype idval = IdInt int | IdStr string | IdNull | IdObject

datatype 'a element = NonObject | Object "idval option" 'a

datatype 'a document = NonList | JList "'a element list"

text \<open>
  \<^verbatim>\<open>sorted(data_list, key=lambda d: d.get("id", 0))\<close>. Python computes the key of every element
  first, and \<^verbatim>\<open>.get\<close> exists on objects only. Then it sorts by comparing keys with
  \<^verbatim>\<open><\<close>, which is defined between two integers and between two strings and raises
  \<^verbatim>\<open>TypeError\<close> on any other pair of these keys; a list of fewer than two elements is
  returned without a comparison, and a sort of two or more elements compares every element
  with some other one. The sort is stable, as \<open>sort_key\<close> is.
\<close>

fun object_of :: "'a element \<Rightarrow> (idval option \<times> 'a) option" where
  "object_of NonObject = None"
| "object_of (Object i f) = Some (i, f)"

definition get_id :: "idval option \<times> 'a \<Rightarrow> idval" where
  "get_id d = (case fst d of None \<Rightarrow> IdInt 0 | Some v \<Rightarrow> v)"

fun is_int :: "idval \<Rightarrow> bool" where
  "is_int (IdInt i) = True"
| "is_int v = False"

fun is_str :: "idval \<Rightarrow> bool" where
  "is_str (IdStr s) = True"
| "is_str v = False"

fun int_of :: "idval \<Rightarrow> int" where
  "int_of (IdInt i) = i"
| "int_of v = 0"

fun str_of :: "idval \<Rightarrow> string" where
  "str_of (IdStr s) = s"
| "str_of v = []"

definition sorted_by_id :: "'a element list \<Rightarrow> py_error + (idval option \<times> 'a) list" where
  "sorted_by_id data_list =
     (case those (map object_of data_list) of
        None \<Rightarrow> Inl AttributeError
      | Some ds \<Rightarrow>
          if length ds \<le> 1 then Inr ds
          else if list_all (\<lambda>d. is_int (get_id d)) ds
            then Inr (sort_key (\<lambda>d. int_of (get_id d)) ds)
          else if list_all (\<lambda>d. is_str (get_id d)) ds
            then Inr (sort_key (\<lambda>d. str_of (get_id d)) ds)
          else Inl TypeError)"

text \<open>
  Lines 188-207, without the \<^verbatim>\<open>try\<close>: the content of the first choice, stripped; the fence
  removed; \<^verbatim>\<open>json.loads\<close> (the parameter \<open>loads\<close>, \<open>None\<close> for \<^verbatim>\<open>JSONDecodeError\<close>); the
  check that the document is a list of \<open>len(texts)\<close> elements; the sort by id; and
  \<^verbatim>\<open>d.pop("id", None)\<close> on every element, which leaves its fields.
\<close>

definition read_reply ::
  "(string \<Rightarrow> 'a document option) \<Rightarrow> nat \<Rightarrow> response \<Rightarrow> py_error + 'a list" where
  "read_reply loads len_texts resp =
     (case resp of
        [] \<Rightarrow> Inl IndexError
      | None # _ \<Rightarrow> Inl AttributeError
      | Some content # _ \<Rightarrow>
          (case loads (strip_code_fence (py_strip content)) of
             None \<Rightarrow> Inl JSONDecodeError
           | Some NonList \<Rightarrow> Inl ValueError
           | Some (JList data_list) \<Rightarrow>
               if length data_list \<noteq> len_texts then Inl ValueError
               else (case sorted_by_id data_list of
                       Inl e \<Rightarrow> Inl e
                     | Inr ds \<Rightarrow> Inr (map snd ds))))"

text \<open>
  What \<^verbatim>\<open>label_batch_async\<close> returns, one entry for each text (\<open>None\<close> is the failure
  entry), and the log of its call of \<^verbatim>\<open>call_api\<close>.
\<close>

record 'a batch_result =
  labels :: "'a option list"
  api_log :: call_log

text \<open>
  The whole function. Both handlers, for \<^verbatim>\<open>json.JSONDecodeError\<close> and for any other
  \<^verbatim>\<open>Exception\<close>, return \<^verbatim>\<open>[None] * len(texts)\<close>; nothing is raised to the caller.
\<close>

definition label_batch_async ::
  "(string \<Rightarrow> 'a document option) \<Rightarrow> service \<Rightarrow> string list \<Rightarrow> 'a batch_result" where
  "label_batch_async loads svc texts =
     (let r = call_api (svc (reviews_payload texts))
      in \<lparr>labels =
            (case returned r of
               Inl e \<Rightarrow> replicate (length texts) None
             | Inr resp \<Rightarrow>
                 (case read_reply loads (length texts) resp of
                    Inl e \<Rightarrow> replicate (length texts) None
                  | Inr data_list \<Rightarrow> map Some data_list)),
          api_log = r\<rparr>)"

subsection \<open>Checkpoint and output files (lines 77-145)\<close>

text \<open>
  The JSON object that \<^verbatim>\<open>save_checkpoint\<close> writes: \<^verbatim>\<open>last_batch\<close>, \<^verbatim>\<open>labels\<close> (the whole
  result table, \<^verbatim>\<open>null\<close> for \<^verbatim>\<open>None\<close>) and \<^verbatim>\<open>completed_batches\<close>. The program reads the
  list of completed batches back with \<^verbatim>\<open>set(...)\<close> only, so it is kept as a set (an
  object without the key counts as the empty set, as \<^verbatim>\<open>.get('completed_batches', [])\<close>
  reads it). The time stamp, which nothing reads, is left out.
\<close>

record 'a checkpoint =
  ck_last_batch :: nat
  ck_labels :: "'a option list"
  ck_completed_batches :: "nat set"

text \<open>
  The checkpoint path: no file (\<open>Missing\<close>); a file on which \<^verbatim>\<open>open\<close>, \<^verbatim>\<open>json.load\<close> or the
  look-up of \<^verbatim>\<open>checkpoint['last_batch']\<close> in \<^verbatim>\<open>load_checkpoint\<close> raises (\<open>Unreadable\<close>); or
  a checkpoint object (\<open>Stored\<close>).
\<close>

datatype 'a stored = Missing | Unreadable | Stored "'a checkpoint"

text \<open>
  The files of one input: the checkpoint, the intermediate table, and the two final tables.
  A table file holds the input rows with the labels beside them; the input rows never
  change, so a table file is given by its labels. Writing a file is taken to succeed.
\<close>

record 'a files =
  checkpoint_file :: "'a stored"
  intermediate_file :: "'a option list option"
  output_parquet :: "'a option list option"
  output_csv :: "'a option list option"

text \<open>Lines 97-107: any exception while loading is caught and \<^verbatim>\<open>None\<close> is returned.\<close>

definition load_checkpoint :: "'a files \<Rightarrow> 'a checkpoint option" where
  "load_checkpoint fs =
     (case checkpoint_file fs of
        Missing \<Rightarrow> None
      | Unreadable \<Rightarrow> None
      | Stored checkpoint \<Rightarrow> Some checkpoint)"

text \<open>Lines 110-120.\<close>

definition save_checkpoint :: "nat \<Rightarrow> 'a option list \<Rightarrow> nat set \<Rightarrow> 'a files \<Rightarrow> 'a files" where
  "save_checkpoint last_batch all_labels completed_batches fs =
     fs\<lparr>checkpoint_file :=
          Stored \<lparr>ck_last_batch = last_batch, ck_labels = all_labels,
                  ck_completed_batches = completed_batches\<rparr>\<rparr>"

text \<open>Lines 123-138: nothing is written while every label is \<^verbatim>\<open>None\<close>.\<close>

definition save_intermediate :: "'a option list \<Rightarrow> 'a files \<Rightarrow> 'a files" where
  "save_intermediate all_labels fs =
     (if list_all (\<lambda>label. label = None) all_labels then fs
      else fs\<lparr>intermediate_file := Some all_labels\<rparr>)"

text \<open>Lines 141-145.\<close>

definition cleanup_checkpoint :: "'a files \<Rightarrow> 'a files" where
  "cleanup_checkpoint fs = fs\<lparr>checkpoint_file := Missing\<rparr>"

subsection \<open>The pipeline (main_async, lines 221-353)\<close>

text \<open>The settings that the command line can change, and the constant interval.\<close>

record config =
  BATCH_SIZE :: nat
  MAX_CONCURRENCY :: nat
  TEXT_COL :: string

definition CHECKPOINT_INTERVAL :: nat where
  "CHECKPOINT_INTERVAL = 5"

text \<open>
  The variables that the batch tasks share (\<^verbatim>\<open>all_labels\<close>, \<^verbatim>\<open>completed_batches\<close>,
  \<^verbatim>\<open>processed_count\<close>), the list \<^verbatim>\<open>pending_batches\<close> for which tasks are created, the files,
  and a count of the requests that the handled batches have sent to the service.
\<close>

record 'a run_state =
  all_labels :: "'a option list"
  completed_batches :: "nat set"
  pending_batches :: "nat list"
  processed_count :: nat
  disk :: "'a files"
  api_requests :: nat

text \<open>
  The slice assignment \<^verbatim>\<open>xs[s:e] = v\<close> with non-negative bounds: the elements from \<open>s\<close> up to
  \<open>e\<close> (none when \<open>e \<le> s\<close>; both bounds clamped to the length) are replaced by \<open>v\<close>.
\<close>

definition slice_assign :: "'a list \<Rightarrow> nat \<Rightarrow> nat \<Rightarrow> 'a list \<Rightarrow> 'a list" where
  "slice_assign xs s e v = take s xs @ v @ drop (max s e) xs"

text \<open>
  Lines 278-279 and the block under the lock, lines 284-292: the labels of the batch are
  written at its offset, the batch is added to the completed ones, the counter is advanced
  and, when it is a multiple of the interval, the checkpoint and the intermediate table are
  saved.
\<close>

definition record_batch ::
  "nat \<Rightarrow> nat \<Rightarrow> nat \<Rightarrow> 'a option list \<Rightarrow> 'a run_state \<Rightarrow> 'a run_state" where
  "record_batch B n batch_idx batch_labels s =
     (let start = batch_start B batch_idx;
          stop = batch_end B n batch_idx;
          s1 = s\<lparr>all_labels := slice_assign (all_labels s) start stop batch_labels,
                 completed_batches := insert batch_idx (completed_batches s),
                 processed_count := processed_count s + 1\<rparr>
      in if processed_count s1 mod CHECKPOINT_INTERVAL = 0
         then s1\<lparr>disk := save_intermediate (all_labels s1)
                   (save_checkpoint batch_idx (all_labels s1) (completed_batches s1) (disk s1))\<rparr>
         else s1)"

text \<open>
  \<^verbatim>\<open>handle_batch\<close>, lines 275-294, run from its start to its end: the batch is cut out of
  the texts, annotated, and recorded.
\<close>

definition handle_batch ::
  "(string \<Rightarrow> 'a document option) \<Rightarrow> service \<Rightarrow> nat \<Rightarrow> string list \<Rightarrow> nat
     \<Rightarrow> 'a run_state \<Rightarrow> 'a run_state" where
  "handle_batch loads svc B texts batch_idx s =
     (let r = label_batch_async loads svc (batch_texts B texts batch_idx)
      in (record_batch B (length texts) batch_idx (labels r) s)
           \<lparr>api_requests := api_requests s + requests (api_log r)\<rparr>)"

text \<open>
  Lines 256-264 and 272: the state before any task runs, from the checkpoint when
  \<^verbatim>\<open>load_checkpoint\<close> returns one and fresh otherwise.
\<close>

definition initial_state :: "nat \<Rightarrow> nat \<Rightarrow> 'a files \<Rightarrow> 'a run_state" where
  "initial_state n nb fs =
     (case load_checkpoint fs of
        Some checkpoint \<Rightarrow>
          \<lparr>all_labels = ck_labels checkpoint,
           completed_batches = ck_completed_batches checkpoint,
           pending_batches = filter (\<lambda>b. b \<notin> ck_completed_batches checkpoint) [0..<nb],
           processed_count = 0, disk = fs, api_requests = 0\<rparr>
      | None \<Rightarrow>
          \<lparr>all_labels = replicate n None,
           completed_batches = {},
           pending_batches = [0..<nb],
           processed_count = 0, disk = fs, api_requests = 0\<rparr>)"

text \<open>
  The state of a run that stops before line 256: nothing loaded, no task created, the files
  as they were.
\<close>

definition not_started :: "'a files \<Rightarrow> 'a run_state" where
  "not_started fs =
     \<lparr>all_labels = [], completed_batches = {}, pending_batches = [],
      processed_count = 0, disk = fs, api_requests = 0\<rparr>"

text \<open>
  The two handlers around \<^verbatim>\<open>gather\<close>, lines 306-318, save the checkpoint with
  \<^verbatim>\<open>max(completed_batches) if completed_batches else 0\<close> and the intermediate table.
\<close>

definition flush :: "'a run_state \<Rightarrow> 'a run_state" where
  "flush s =
     s\<lparr>disk := save_intermediate (all_labels s)
          (save_checkpoint (if completed_batches s = {} then 0 else Max (completed_batches s))
             (all_labels s) (completed_batches s) (disk s))\<rparr>"

text \<open>How a call of \<^verbatim>\<open>main_async\<close> ends.\<close>

datatype outcome = Returned | Exited nat | Raised py_error

text \<open>
  Line 324, \<^verbatim>\<open>pd.DataFrame(all_labels)\<close>. When the first entry of the list is a dictionary
  the constructor reads the keys of every entry, and raises \<^verbatim>\<open>AttributeError\<close> at an entry
  that is \<^verbatim>\<open>None\<close>. Otherwise (an empty list, or a first entry \<^verbatim>\<open>None\<close>) it builds a frame
  of the entries as they are.
\<close>

definition labels_frame :: "'a option list \<Rightarrow> py_error + 'a option list" where
  "labels_frame data =
     (case data of
        [] \<Rightarrow> Inr []
      | None # rest \<Rightarrow> Inr data
      | Some d # rest \<Rightarrow> if None \<in> set rest then Inl AttributeError else Inr data)"

text \<open>
  Lines 320-353: the frame of the labels is built, and an exception of line 324 ends the run
  there; both tables are written; the summary divides by \<^verbatim>\<open>n\<close> and so raises
  \<^verbatim>\<open>ZeroDivisionError\<close> for an empty input; then the checkpoint and the intermediate table
  are removed.
\<close>

definition finish :: "nat \<Rightarrow> 'a run_state \<Rightarrow> outcome \<times> 'a run_state" where
  "finish n s =
     (case labels_frame (all_labels s) of
        Inl e \<Rightarrow> (Raised e, s)
      | Inr labels_df \<Rightarrow>
          (let written = (disk s)\<lparr>output_parquet := Some labels_df,
                                   output_csv := Some labels_df\<rparr>
           in if n = 0 then (Raised ZeroDivisionError, s\<lparr>disk := written\<rparr>)
              else (Returned,
                    s\<lparr>disk := (cleanup_checkpoint written)\<lparr>intermediate_file := None\<rparr>\<rparr>)))"

text \<open>
  The tasks of \<^verbatim>\<open>gather\<close> run interleaved, and each of them changes the shared state in its
  block under the lock only. A schedule tells in which order the tasks came to that block
  and how the \<^verbatim>\<open>await\<close> of \<^verbatim>\<open>gather\<close>, lines 299-305, ended: with all tasks done
  (\<open>Finished\<close>); with a \<^verbatim>\<open>KeyboardInterrupt\<close> raised in it, which line 306 catches
  (\<open>Interrupted\<close>); with an \<^verbatim>\<open>Exception\<close>, which line 312 catches (\<open>Crashed\<close>); or with the
  cancellation of the main task (\<open>Cancelled\<close>). A cancellation raises \<^verbatim>\<open>CancelledError\<close>,
  which is no \<^verbatim>\<open>Exception\<close>, so that neither handler runs; it is what \<^verbatim>\<open>asyncio.run\<close>,
  under which lines 452-455 run \<^verbatim>\<open>main_async\<close>, makes of Ctrl-C. The tasks are modelled
  step by step further down, and \<open>interleaving_is_schedule\<close> shows that their runs are
  these schedules.
\<close>

datatype ending = Finished | Interrupted | Crashed py_error | Cancelled

record schedule =
  completion_order :: "nat list"
  gather_ends :: ending

text \<open>
  A table file as \<^verbatim>\<open>pd.read_parquet\<close> returns it: the columns by name, every value already
  as the string that \<^verbatim>\<open>astype(str)\<close> gives.
\<close>

type_synonym dataframe = "(string \<times> string list) list"

text \<open>
  \<^verbatim>\<open>main_async\<close>. \<open>input_file\<close> is \<open>None\<close> when the path does not exist. The run exits with
  status 1 when the file or the text column is missing (lines 230-241), raises when the
  division of line 245 raises, and otherwise loads or creates the state, runs the tasks as
  the schedule says and ends in one of the four ways.
\<close>

definition main_async ::
  "config \<Rightarrow> (string \<Rightarrow> 'a document option) \<Rightarrow> service \<Rightarrow> dataframe option \<Rightarrow> schedule
     \<Rightarrow> 'a files \<Rightarrow> outcome \<times> 'a run_state" where
  "main_async cfg loads svc input_file sched fs =
     (case input_file of
        None \<Rightarrow> (Exited 1, not_started fs)
      | Some df \<Rightarrow>
          (case map_of df (TEXT_COL cfg) of
             None \<Rightarrow> (Exited 1, not_started fs)
           | Some texts \<Rightarrow>
               (case num_batches (length texts) (BATCH_SIZE cfg) of
                  Inl e \<Rightarrow> (Raised e, not_started fs)
                | Inr nb \<Rightarrow>
                    (let s0 = initial_state (length texts) nb fs;
                         s1 = fold (handle_batch loads svc (BATCH_SIZE cfg) texts)
                                (completion_order sched) s0
                     in case gather_ends sched of
                          Finished \<Rightarrow> finish (length texts) s1
                        | Interrupted \<Rightarrow> (Returned, flush s1)
                        | Crashed e \<Rightarrow> (Raised e, flush s1)
                        | Cancelled \<Rightarrow> (Raised CancelledError, s1)))))"

subsection \<open>The tasks of gather, step by step (lines 152-167, 186-214, 275-294)\<close>

text \<open>
  Where the task of one batch stands. In \<^verbatim>\<open>call_api\<close>, attempt \<open>k\<close>: \<open>Waiting k\<close> before
  \<^verbatim>\<open>async with sem\<close> lets it in, \<open>InFlight k\<close> while it awaits the response inside that
  block, \<open>Sleeping k\<close> while the retry decorator sleeps after the block was left with a
  retryable error. \<open>Parsing r\<close>: \<^verbatim>\<open>call_api\<close> has returned or raised \<open>r\<close>, and lines 188-214
  run. \<open>AtLock labels\<close>: before \<^verbatim>\<open>async with lock\<close>. The next four stand inside that block,
  before line 285, 286, 287 and 290. \<open>Done\<close>: the block is left.
\<close>

datatype 'a pc =
    Waiting nat
  | InFlight nat
  | Sleeping nat
  | Parsing "py_error + response"
  | AtLock "'a option list"
  | Writing "'a option list"
  | Marking "'a option list"
  | Counting "'a option list"
  | Saving "'a option list"
  | Done "'a option list"

text \<open>
  The semaphore (its free permits), the lock, the place of every task and the shared
  variables. Tasks exist for the batches in \<open>pending_batches\<close>.
\<close>

record 'a system =
  sem_value :: nat
  lock_locked :: bool
  pcs :: "nat \<Rightarrow> 'a pc"
  vars :: "'a run_state"

text \<open>
  Lines 269-273 and 297: \<^verbatim>\<open>asyncio.Semaphore(MAX_CONCURRENCY)\<close>, \<^verbatim>\<open>asyncio.Lock()\<close>, and
  every task at the start of its first attempt.
\<close>

definition start_system :: "nat \<Rightarrow> 'a run_state \<Rightarrow> 'a system" where
  "start_system C s0 =
     \<lparr>sem_value = C, lock_locked = False, pcs = (\<lambda>b. Waiting 1), vars = s0\<rparr>"

text \<open>
  Lines 188-214 after \<^verbatim>\<open>call_api\<close>: the labels when the reply can be read, and
  \<^verbatim>\<open>[None] * len(texts)\<close> from either handler otherwise.
\<close>

definition labels_after ::
  "(string \<Rightarrow> 'a document option) \<Rightarrow> string list \<Rightarrow> py_error + response \<Rightarrow> 'a option list" where
  "labels_after loads texts r =
     (case r of
        Inl e \<Rightarrow> replicate (length texts) None
      | Inr resp \<Rightarrow>
          (case read_reply loads (length texts) resp of
             Inl e \<Rightarrow> replicate (length texts) None
           | Inr data_list \<Rightarrow> map Some data_list))"

text \<open>The four statements under the lock, lines 285, 286, 287 and 290-292.\<close>

definition write_labels :: "nat \<Rightarrow> nat \<Rightarrow> nat \<Rightarrow> 'a option list \<Rightarrow> 'a run_state \<Rightarrow> 'a run_state" where
  "write_labels B n batch_idx batch_labels v =
     v\<lparr>all_labels := slice_assign (all_labels v) (batch_start B batch_idx)
          (batch_end B n batch_idx) batch_labels\<rparr>"

definition mark_completed :: "nat \<Rightarrow> 'a run_state \<Rightarrow> 'a run_state" where
  "mark_completed batch_idx v = v\<lparr>completed_batches := insert batch_idx (completed_batches v)\<rparr>"

definition count_processed :: "'a run_state \<Rightarrow> 'a run_state" where
  "count_processed v = v\<lparr>processed_count := processed_count v + 1\<rparr>"

definition save_periodically :: "nat \<Rightarrow> 'a run_state \<Rightarrow> 'a run_state" where
  "save_periodically batch_idx v =
     (if processed_count v mod CHECKPOINT_INTERVAL = 0
      then v\<lparr>disk := save_intermediate (all_labels v)
               (save_checkpoint batch_idx (all_labels v) (completed_batches v) (disk v))\<rparr>
      else v)"

text \<open>
  One step of one task. A task passes \<^verbatim>\<open>async with sem\<close> only while a permit is free and
  takes it; it gives the permit back when the request is answered, by a response or an
  exception, which is when the block is left. A task passes \<^verbatim>\<open>async with lock\<close> only while
  the lock is free, and frees it after line 292. \<open>reply b k\<close> is what the service
  answers to the \<open>k\<close>-th request for batch \<open>b\<close>.
\<close>

datatype action =
    Acquire nat | Respond nat | Wake nat | Parse nat
  | Lock nat | Write nat | Mark nat | Count nat | Save nat

definition fire ::
  "nat \<Rightarrow> string list \<Rightarrow> (string \<Rightarrow> 'a document option) \<Rightarrow> (nat \<Rightarrow> nat \<Rightarrow> call_outcome)
     \<Rightarrow> action \<Rightarrow> 'a system \<Rightarrow> 'a system option" where
  "fire B texts loads reply a s =
     (case a of
        Acquire b \<Rightarrow>
          (case pcs s b of
             Waiting k \<Rightarrow>
               if b \<in> set (pending_batches (vars s)) \<and> 0 < sem_value s
               then Some (s\<lparr>sem_value := sem_value s - 1, pcs := (pcs s)(b := InFlight k)\<rparr>)
               else None
           | _ \<Rightarrow> None)
      | Respond b \<Rightarrow>
          (case pcs s b of
             InFlight k \<Rightarrow>
               if b \<in> set (pending_batches (vars s))
               then Some (s\<lparr>sem_value := sem_value s + 1,
                            pcs := (pcs s)(b :=
                              (case reply b k of
                                 Inr resp \<Rightarrow> Parsing (Inr resp)
                               | Inl (Inr e) \<Rightarrow> Parsing (Inl e)
                               | Inl (Inl e) \<Rightarrow>
                                   if call_api_stop k then Parsing (Inl RetryError)
                                   else Sleeping k))\<rparr>)
               else None
           | _ \<Rightarrow> None)
      | Wake b \<Rightarrow>
          (case pcs s b of
             Sleeping k \<Rightarrow>
               if b \<in> set (pending_batches (vars s))
               then Some (s\<lparr>pcs := (pcs s)(b := Waiting (k + 1))\<rparr>)
               else None
           | _ \<Rightarrow> None)
      | Parse b \<Rightarrow>
          (case pcs s b of
             Parsing r \<Rightarrow>
               if b \<in> set (pending_batches (vars s))
               then Some (s\<lparr>pcs := (pcs s)(b :=
                              AtLock (labels_after loads (batch_texts B texts b) r))\<rparr>)
               else None
           | _ \<Rightarrow> None)
      | Lock b \<Rightarrow>
          (case pcs s b of
             AtLock ls \<Rightarrow>
               if b \<in> set (pending_batches (vars s)) \<and> \<not> lock_locked s
               then Some (s\<lparr>lock_locked := True, pcs := (pcs s)(b := Writing ls)\<rparr>)
               else None
           | _ \<Rightarrow> None)
      | Write b \<Rightarrow>
          (case pcs s b of
             Writing ls \<Rightarrow>
               if b \<in> set (pending_batches (vars s))
               then Some (s\<lparr>pcs := (pcs s)(b := Marking ls),
                            vars := write_labels B (length texts) b ls (vars s)\<rparr>)
               else None
           | _ \<Rightarrow> None)
      | Mark b \<Rightarrow>
          (case pcs s b of
             Marking ls \<Rightarrow>
               if b \<in> set (pending_batches (vars s))
               then Some (s\<lparr>pcs := (pcs s)(b := Counting ls),
                            vars := mark_completed b (vars s)\<rparr>)
               else None
           | _ \<Rightarrow> None)
      | Count b \<Rightarrow>
          (case pcs s b of
             Counting ls \<Rightarrow>
               if b \<in> set (pending_batches (vars s))
               then Some (s\<lparr>pcs := (pcs s)(b := Saving ls),
                            vars := count_processed (vars s)\<rparr>)
               else None
           | _ \<Rightarrow> None)
      | Save b \<Rightarrow>
          (case pcs s b of
             Saving ls \<Rightarrow>
               if b \<in> set (pending_batches (vars s))
               then Some (s\<lparr>lock_locked := False, pcs := (pcs s)(b := Done ls),
                            vars := save_periodically b (vars s)\<rparr>)
               else None
           | _ \<Rightarrow> None))"

text \<open>A run: the steps of the tasks in the order in which the event loop takes them.\<close>

fun exec ::
  "nat \<Rightarrow> string list \<Rightarrow> (string \<Rightarrow> 'a document option) \<Rightarrow> (nat \<Rightarrow> nat \<Rightarrow> call_outcome)
     \<Rightarrow> action list \<Rightarrow> 'a system \<Rightarrow> 'a system option" where
  "exec B texts loads reply [] s = Some s"
| "exec B texts loads reply (a # as) s =
     (case fire B texts loads reply a s of
        None \<Rightarrow> None
      | Some s' \<Rightarrow> exec B texts loads reply as s')"

subsection \<open>Notions for the statements\<close>

text \<open>How a decorated call ends, read off the outcome of its last request.\<close>

fun final_outcome :: "call_outcome \<Rightarrow> py_error + response" where
  "final_outcome (Inr resp) = Inr resp"
| "final_outcome (Inl (Inr e)) = Inl e"
| "final_outcome (Inl (Inl e)) = Inl RetryError"

text \<open>The entries that \<^verbatim>\<open>label_batch_async\<close> returns for batch \<open>b\<close> of the texts.\<close>

definition annotate ::
  "(string \<Rightarrow> 'a document option) \<Rightarrow> service \<Rightarrow> nat \<Rightarrow> string list \<Rightarrow> nat \<Rightarrow> 'a option list" where
  "annotate loads svc B texts b = labels (label_batch_async loads svc (batch_texts B texts b))"

text \<open>The tasks run one after the other in the order of a schedule, from a state.\<close>

definition gather ::
  "(string \<Rightarrow> 'a document option) \<Rightarrow> service \<Rightarrow> nat \<Rightarrow> string list \<Rightarrow> nat list
     \<Rightarrow> 'a run_state \<Rightarrow> 'a run_state" where
  "gather loads svc B texts batches s = fold (handle_batch loads svc B texts) batches s"


text \<open>
  A small instance for the examples: three records in batches of two, a service that
  answers with the texts of the request one after the other, a parser that reads every
  character of the content as one object without id, and no files on disk.
\<close>

definition example_cfg :: config where
  "example_cfg = \<lparr>BATCH_SIZE = 2, MAX_CONCURRENCY = 2, TEXT_COL = ''cleaned_text''\<rparr>"

definition example_df :: dataframe where
  "example_df = [(''review_id'', [''r1'', ''r2'', ''r3'']), (''cleaned_text'', [''a'', ''b'', ''c''])]"

definition echo_service :: service where
  "echo_service payload k = Inr [Some (concat (map snd payload))]"

definition echo_loads :: "string \<Rightarrow> char document option" where
  "echo_loads content = Some (JList (map (\<lambda>c. Object None c) content))"

definition no_files :: "'a files" where
  "no_files = \<lparr>checkpoint_file = Missing, intermediate_file = None, output_parquet = None, output_csv = None\<rparr>"

text \<open>The same with a batch size of 332 decimal digits.\<close>

definition huge_cfg :: config where
  "huge_cfg = \<lparr>BATCH_SIZE = 2 ^ 1100, MAX_CONCURRENCY = 2, TEXT_COL = ''cleaned_text''\<rparr>"


definition empty_df :: dataframe where
  "empty_df = [(''review_id'', []), (''cleaned_text'', [])]"

text \<open>
  A parser for the examples that gives every character of the content as an object with its
  position as id, the objects in reverse order.
\<close>

definition reversing_loads :: "string \<Rightarrow> char document option" where
  "reversing_loads content =
     Some (JList (rev (map (\<lambda>(i, c). Object (Some (IdInt (int i))) c) (enumerate 0 content))))"

text \<open>A service whose first answer to every request is a timeout.\<close>

definition late_service :: service where
  "late_service payload k = (if k = 1 then Inl (Inl APITimeoutError) else echo_service payload k)"

text \<open>Notions for the statements about runs.\<close>

fun in_flight :: "'a pc \<Rightarrow> bool" where
  "in_flight (InFlight k) = True"
| "in_flight p = False"

fun under_lock :: "'a pc \<Rightarrow> bool" where
  "under_lock (Writing ls) = True"
| "under_lock (Marking ls) = True"
| "under_lock (Counting ls) = True"
| "under_lock (Saving ls) = True"
| "under_lock p = False"

fun written :: "'a pc \<Rightarrow> bool" where
  "written (Marking ls) = True"
| "written (Counting ls) = True"
| "written (Saving ls) = True"
| "written (Done ls) = True"
| "written p = False"



fun is_done :: "'a pc \<Rightarrow> bool" where
  "is_done (Done ls) = True"
| "is_done p = False"

fun has_labels :: "'a pc \<Rightarrow> bool" where
  "has_labels (Waiting k) = False"
| "has_labels (InFlight k) = False"
| "has_labels (Sleeping k) = False"
| "has_labels (Parsing r) = False"
| "has_labels p = True"

fun held_labels :: "'a pc \<Rightarrow> 'a option list" where
  "held_labels (AtLock ls) = ls"
| "held_labels (Writing ls) = ls"
| "held_labels (Marking ls) = ls"
| "held_labels (Counting ls) = ls"
| "held_labels (Saving ls) = ls"
| "held_labels (Done ls) = ls"
| "held_labels p = []"

definition count_tasks :: "('a pc \<Rightarrow> bool) \<Rightarrow> 'a system \<Rightarrow> nat" where
  "count_tasks P s = length (filter (\<lambda>b. P (pcs s b)) (pending_batches (vars s)))"

text \<open>
  The invariant of a run that started from the variables \<open>v0\<close>, in three parts: the tasks
  and the lock; the shared variables; the checkpoint on disk.
\<close>

definition tasks_ok :: "nat \<Rightarrow> string list \<Rightarrow> 'a run_state \<Rightarrow> 'a system \<Rightarrow> bool" where
  "tasks_ok B texts v0 s \<longleftrightarrow>
     pending_batches (vars s) = pending_batches v0
     \<and> (\<forall>b \<in> set (pending_batches v0). \<forall>t \<in> set (pending_batches v0).
           under_lock (pcs s b) \<and> under_lock (pcs s t) \<longrightarrow> b = t)
     \<and> (lock_locked s \<longleftrightarrow> (\<exists>b \<in> set (pending_batches v0). under_lock (pcs s b)))
     \<and> (\<forall>b \<in> set (pending_batches v0).
           has_labels (pcs s b) \<longrightarrow>
           length (held_labels (pcs s b)) = length (batch_texts B texts b))"





text \<open>
  For the examples: settings with batches of one and one permit; a service that is rate
  limited at the first request for batch 0 only;
  six records in batches of one, answered as \<open>echo_service\<close> does; and a run of their
  tasks in which batch 2 has not come to the lock when the fifth batch is recorded.
\<close>

definition serial_cfg :: config where
  "serial_cfg = \<lparr>BATCH_SIZE = 1, MAX_CONCURRENCY = 1, TEXT_COL = ''cleaned_text''\<rparr>"

definition flaky_reply :: "nat \<Rightarrow> nat \<Rightarrow> call_outcome" where
  "flaky_reply b k = (if b = 0 \<and> k = 1 then Inl (Inl RateLimitError) else Inr [Some ''x''])"







text \<open>
  What \<^verbatim>\<open>call_api\<close> returns or raises when the service answers the requests for one batch
  as \<open>reply\<close> says, and the labels that \<^verbatim>\<open>label_batch_async\<close> makes of it.
\<close>

definition call_result :: "(nat \<Rightarrow> call_outcome) \<Rightarrow> py_error + response" where
  "call_result reply = returned (call_api reply)"

definition task_labels ::
  "nat \<Rightarrow> string list \<Rightarrow> (string \<Rightarrow> 'a document option) \<Rightarrow> (nat \<Rightarrow> nat \<Rightarrow> call_outcome)
     \<Rightarrow> nat \<Rightarrow> 'a option list" where
  "task_labels B texts loads reply b
     = labels_after loads (batch_texts B texts b) (call_result (reply b))"

text \<open>Where a task may stand, given the answers of the service to its requests.\<close>

fun attempt_ok ::
  "nat \<Rightarrow> string list \<Rightarrow> (string \<Rightarrow> 'a document option) \<Rightarrow> (nat \<Rightarrow> nat \<Rightarrow> call_outcome)
     \<Rightarrow> nat \<Rightarrow> 'a pc \<Rightarrow> bool" where
  "attempt_ok B texts loads reply b (Waiting k) =
     (1 \<le> k \<and> (\<forall>j. 1 \<le> j \<and> j < k \<longrightarrow> retryable (reply b j) \<and> \<not> call_api_stop j))"
| "attempt_ok B texts loads reply b (InFlight k) =
     (1 \<le> k \<and> (\<forall>j. 1 \<le> j \<and> j < k \<longrightarrow> retryable (reply b j) \<and> \<not> call_api_stop j))"
| "attempt_ok B texts loads reply b (Sleeping k) =
     (1 \<le> k \<and> (\<forall>j. 1 \<le> j \<and> j < k + 1 \<longrightarrow> retryable (reply b j) \<and> \<not> call_api_stop j))"
| "attempt_ok B texts loads reply b (Parsing r) = (r = call_result (reply b))"
| "attempt_ok B texts loads reply b p = (held_labels p = task_labels B texts loads reply b)"

text \<open>
  The batches in the order in which their tasks left the block under the lock, and the
  shared variables after \<open>record_batch\<close> for each of them in that order.
\<close>

fun saved :: "action \<Rightarrow> nat list" where
  "saved (Save b) = [b]"
| "saved a = []"

definition completions :: "action list \<Rightarrow> nat list" where
  "completions acts = concat (map saved acts)"

definition recorded ::
  "nat \<Rightarrow> string list \<Rightarrow> (string \<Rightarrow> 'a document option) \<Rightarrow> (nat \<Rightarrow> nat \<Rightarrow> call_outcome)
     \<Rightarrow> nat list \<Rightarrow> 'a run_state \<Rightarrow> 'a run_state" where
  "recorded B texts loads reply order v0 =
     fold (\<lambda>b. record_batch B (length texts) b (task_labels B texts loads reply b)) order v0"

text \<open>What the task under the lock has done to the variables so far.\<close>

fun partly :: "nat \<Rightarrow> nat \<Rightarrow> nat \<Rightarrow> 'a pc \<Rightarrow> 'a run_state \<Rightarrow> 'a run_state" where
  "partly B n b (Marking ls) v = write_labels B n b ls v"
| "partly B n b (Counting ls) v = mark_completed b (write_labels B n b ls v)"
| "partly B n b (Saving ls) v = count_processed (mark_completed b (write_labels B n b ls v))"
| "partly B n b p v = v"

fun midway :: "'a pc \<Rightarrow> bool" where
  "midway (Marking ls) = True"
| "midway (Counting ls) = True"
| "midway (Saving ls) = True"
| "midway p = False"

definition history_ok ::
  "nat \<Rightarrow> string list \<Rightarrow> (string \<Rightarrow> 'a document option) \<Rightarrow> (nat \<Rightarrow> nat \<Rightarrow> call_outcome)
     \<Rightarrow> 'a run_state \<Rightarrow> action list \<Rightarrow> 'a system \<Rightarrow> bool" where
  "history_ok B texts loads reply v0 h s \<longleftrightarrow>
     (\<forall>b \<in> set (pending_batches v0). midway (pcs s b) \<longrightarrow>
        vars s = partly B (length texts) b (pcs s b)
                   (recorded B texts loads reply (completions h) v0))
     \<and> ((\<forall>b \<in> set (pending_batches v0). \<not> midway (pcs s b)) \<longrightarrow>
        vars s = recorded B texts loads reply (completions h) v0)
     \<and> distinct (completions h)
     \<and> set (completions h) = {b \<in> set (pending_batches v0). is_done (pcs s b)}"

section \<open>Verification\<close>

subsection \<open>Facts about the partition\<close>

lemma ceiling_div_nat:
  assumes "0 < B"
  shows "\<lceil>(of_nat n :: rat) / of_nat B\<rceil> = int ((n + B - 1) div B)"
proof -
  define q where "q = (n + B - 1) div B"
  have up: "n \<le> q * B"
  proof -
    have "n + B - 1 < (q + 1) * B"
      unfolding q_def using assms
      by (metis Suc_eq_plus1 dividend_less_div_times mult.commute add.commute mult_Suc)
    then show ?thesis using assms by simp
  qed
  have lo: "q * B < n + B"
  proof -
    have "q * B \<le> n + B - 1" unfolding q_def by simp
    then show ?thesis using assms by linarith
  qed
  have "\<lceil>(of_nat n :: rat) / of_nat B\<rceil> = int q"
  proof (rule ceiling_unique)
    have "(of_nat (q * B) :: rat) < of_nat (n + B)" using lo by (simp only: of_nat_less_iff)
    then have "(of_nat q :: rat) * of_nat B < of_nat n + of_nat B" by simp
    then have "((of_nat q :: rat) - 1) * of_nat B < of_nat n" by (simp add: algebra_simps)
    then show "of_int (int q) - 1 < (of_nat n :: rat) / of_nat B"
      using assms by (simp add: pos_less_divide_eq)
    have "(of_nat n :: rat) \<le> of_nat (q * B)" using up by (simp only: of_nat_le_iff)
    then show "(of_nat n :: rat) / of_nat B \<le> of_int (int q)"
      using assms by (simp add: pos_divide_le_eq)
  qed
  then show ?thesis by (simp only: q_def)
qed

lemma batch_texts_take_drop:
  "batch_texts B texts k = take B (drop (k * B) texts)"
proof (cases "(k + 1) * B \<le> length texts")
  case True
  then show ?thesis
    by (simp add: batch_texts_def py_slice_def batch_start_def batch_end_def min_def)
next
  case False
  then have "min ((k + 1) * B) (length texts) = length texts" by simp
  moreover have "length (drop (k * B) texts) \<le> B" using False by simp
  ultimately show ?thesis
    by (simp add: batch_texts_def py_slice_def batch_start_def batch_end_def)
qed

lemma concat_batches_take:
  "concat (map (\<lambda>k. take B (drop (k * B) xs)) [0..<m]) = take (m * B) xs"
proof (induction m)
  case 0
  then show ?case by simp
next
  case (Suc m)
  have "Suc m * B = m * B + B" by simp
  then have "take (Suc m * B) xs = take (m * B) xs @ take B (drop (m * B) xs)"
    by (simp only: take_add)
  with Suc show ?case by simp
qed

lemma num_batches_covers:
  assumes "0 < B"
  shows "(n::nat) \<le> ((n + B - 1) div B) * B"
proof -
  have "n + B - 1 < ((n + B - 1) div B + 1) * B"
    using assms by (metis Suc_eq_plus1 dividend_less_div_times mult.commute mult_Suc)
  then show ?thesis using assms by simp
qed

lemma num_batches_tight:
  assumes "0 < B" "k < (n + B - 1) div B"
  shows "k * B < (n::nat)"
proof -
  have "k + 1 \<le> (n + B - 1) div B" using assms(2) by linarith
  then have "(k + 1) * B \<le> ((n + B - 1) div B) * B" by (rule mult_le_mono1)
  also have "\<dots> \<le> n + B - 1" by (rule div_times_less_eq_dividend)
  finally have "k * B + B \<le> n + B - 1" by (simp add: algebra_simps)
  then show ?thesis using assms(1) by linarith
qed

lemma batch_index_unique:
  assumes "0 < B" "i < n"
  shows "\<exists>!k. k < (n + B - 1) div B \<and> batch_start B k \<le> i \<and> i < batch_end B n k"
proof (rule ex1I [where a = "i div B"])
  have "i div B * B \<le> i" by (rule div_times_less_eq_dividend)
  moreover have "i < (i div B + 1) * B"
    using assms(1) by (metis Suc_eq_plus1 dividend_less_div_times mult.commute mult_Suc add.commute)
  moreover have "i div B < (n + B - 1) div B"
  proof (rule ccontr)
    assume "\<not> i div B < (n + B - 1) div B"
    then have "(n + B - 1) div B \<le> i div B" by linarith
    then have "(n + B - 1) div B * B \<le> i div B * B" by (rule mult_le_mono1)
    with num_batches_covers [OF assms(1), of n] have "n \<le> i div B * B" by linarith
    with \<open>i div B * B \<le> i\<close> assms(2) show False by linarith
  qed
  ultimately show "i div B < (n + B - 1) div B \<and> batch_start B (i div B) \<le> i \<and> i < batch_end B n (i div B)"
    using assms(2) by (simp add: batch_start_def batch_end_def)
next
  fix k
  assume k: "k < (n + B - 1) div B \<and> batch_start B k \<le> i \<and> i < batch_end B n k"
  then have "k * B \<le> i" "i < (k + 1) * B" by (simp_all add: batch_start_def batch_end_def)
  then have "i div B = k"
    by (intro div_nat_eqI) (simp_all add: mult.commute)
  then show "k = i div B" by simp
qed

lemma py_slice_nth:
  assumes "e \<le> length xs"
  shows "py_slice xs s e = map ((!) xs) [s..<e]"
  using assms by (auto simp: py_slice_def list_eq_iff_nth_eq)

subsection \<open>The division of line 245\<close>

declare bit_length.simps [simp del]

lemma bit_length_bounds:
  "0 < n \<Longrightarrow> 2 ^ (bit_length n - 1) \<le> n \<and> n < 2 ^ bit_length n"
proof (induction n rule: bit_length.induct)
  case (1 n)
  let ?h = "n div 2"
  have bl: "bit_length n = Suc (bit_length ?h)" using 1(2) by (subst bit_length.simps) simp
  show ?case
  proof (cases "?h = 0")
    case True
    then have "bit_length ?h = 0" by (subst bit_length.simps) simp
    moreover from True 1(2) have "n = 1" by (simp add: div_eq_0_iff) 
    ultimately show ?thesis using bl by simp
  next
    case False
    then have h: "0 < ?h" by simp
    from 1(1) [OF _ h] 1(2)
    have ih: "2 ^ (bit_length ?h - 1) \<le> ?h" "?h < 2 ^ bit_length ?h" by simp_all
    have pos: "0 < bit_length ?h" using h by (subst bit_length.simps) simp
    then have "(2::nat) ^ bit_length ?h = 2 * 2 ^ (bit_length ?h - 1)"
      by (cases "bit_length ?h") simp_all
    with ih(1) have "(2::nat) ^ bit_length ?h \<le> 2 * ?h" by simp
    also have "\<dots> \<le> n" by simp
    finally have lo: "2 ^ (bit_length n - 1) \<le> n" by (simp add: bl)
    from ih(2) have "Suc ?h \<le> 2 ^ bit_length ?h" by simp
    then have "2 * Suc ?h \<le> 2 * 2 ^ bit_length ?h" by simp
    moreover have "n < 2 * Suc ?h" by simp
    ultimately have "n < 2 ^ bit_length n" by (simp add: bl)
    with lo show ?thesis by simp
  qed
qed

lemma binary_exponent_bounds:
  assumes a: "0 < a" and b: "0 < b"
  shows "2 powi binary_exponent a b \<le> (of_nat a :: rat) / of_nat b"
    and "(of_nat a :: rat) / of_nat b < 2 powi (binary_exponent a b + 1)"
proof -
  let ?la = "bit_length a" and ?lb = "bit_length b"
  let ?d = "int ?la - int ?lb"
  let ?q = "(of_nat a :: rat) / of_nat b"
  note ba = bit_length_bounds [OF a] and bb = bit_length_bounds [OF b]
  have la: "0 < ?la" using a by (subst bit_length.simps) simp
  have lb: "0 < ?lb" using b by (subst bit_length.simps) simp
  have a1: "(2::rat) ^ (?la - 1) \<le> of_nat a" using ba by (metis of_nat_numeral of_nat_power of_nat_le_iff)
  have a2: "(of_nat a :: rat) < 2 ^ ?la" using ba by (metis of_nat_numeral of_nat_power of_nat_less_iff)
  have b1: "(2::rat) ^ (?lb - 1) \<le> of_nat b" using bb by (metis of_nat_numeral of_nat_power of_nat_le_iff)
  have b2: "(of_nat b :: rat) < 2 ^ ?lb" using bb by (metis of_nat_numeral of_nat_power of_nat_less_iff)
  have "?q < 2 ^ ?la / 2 ^ (?lb - 1)"
    using a2 b1 by (intro frac_less) simp_all
  also have "\<dots> = 2 powi (int ?la - int (?lb - 1))"
    by (simp add: power_int_diff)
  also have "int ?la - int (?lb - 1) = ?d + 1" using lb by simp
  finally have up: "?q < 2 powi (?d + 1)" .
  have "?d - 1 = int (?la - 1) - int ?lb" using la by simp
  then have "(2::rat) powi (?d - 1) = 2 powi (int (?la - 1) - int ?lb)" by (simp only:)
  also have "\<dots> = 2 ^ (?la - 1) / 2 ^ ?lb" by (simp add: power_int_diff)
  also have "\<dots> \<le> ?q" using a1 b2 b by (intro frac_le) simp_all
  finally have lo: "2 powi (?d - 1) \<le> ?q" .
  show "2 powi binary_exponent a b \<le> ?q"
    using lo by (simp add: binary_exponent_def Let_def)
  show "?q < 2 powi (binary_exponent a b + 1)"
    using up by (simp add: binary_exponent_def Let_def)
qed

lemma round_half_even_ge: "of_int i \<le> x \<Longrightarrow> i \<le> round_half_even x"
proof -
  assume "of_int i \<le> x"
  then have "i \<le> \<lfloor>x\<rfloor>" by (simp add: le_floor_iff)
  then show ?thesis by (simp add: round_half_even_def Let_def)
qed

lemma round_half_even_le: "x \<le> of_int i \<Longrightarrow> round_half_even x \<le> i"
proof (cases "x = of_int i")
  case True
  then show ?thesis by (simp add: round_half_even_def Let_def)
next
  case False
  assume "x \<le> of_int i"
  with False have "x < of_int i" by simp
  then have "\<lfloor>x\<rfloor> < i" by (simp add: floor_less_iff)
  then show ?thesis by (simp add: round_half_even_def Let_def)
qed

lemma round_half_even_gt: "of_int i + 1 / 2 < x \<Longrightarrow> i < round_half_even x"
proof -
  assume h: "of_int i + 1 / 2 < x"
  then have "of_int i \<le> x" by simp
  then have f: "i \<le> \<lfloor>x\<rfloor>" by (simp add: le_floor_iff)
  show ?thesis
  proof (cases "i = \<lfloor>x\<rfloor>")
    case True
    with h have "1 / 2 < x - of_int \<lfloor>x\<rfloor>" by simp
    then show ?thesis using True by (simp add: round_half_even_def Let_def)
  next
    case False
    with f have "i < \<lfloor>x\<rfloor>" by simp
    then show ?thesis by (simp add: round_half_even_def Let_def)
  qed
qed


lemma true_divide_ceiling:
  assumes n: "0 < n" "n < 2 ^ 53" and B: "0 < B" "B < 2 ^ 1075"
  shows "\<exists>x. true_divide n B = Inr x \<and> \<lceil>x\<rceil> = \<lceil>(of_nat n :: rat) / of_nat B\<rceil>"
proof -
  let ?q = "(of_nat n :: rat) / of_nat B"
  let ?e = "binary_exponent n B"
  let ?p = "max ?e (- 1022) - 52"
  define k where "k = nat (- ?p)"
  let ?K = "(2::rat) ^ k"
  let ?m = "round_half_even (?q * ?K)"
  let ?c = "\<lceil>?q\<rceil>"
  note eb = binary_exponent_bounds [OF n(1) B(1)]
  have B1: "(1::rat) \<le> of_nat B" using B(1) by simp
  have Bpos: "(0::rat) < of_nat B" using B(1) by simp
  have n53: "(of_nat n :: rat) < 2 ^ 53"
    using n(2) by (metis of_nat_numeral of_nat_power of_nat_less_iff)
  have qn: "?q \<le> of_nat n" using B1 by (simp add: divide_le_eq mult_le_cancel_left1)
  have e53: "?e < 53"
  proof (rule ccontr)
    assume "\<not> ?e < 53"
    then have "(2::rat) powi 53 \<le> 2 powi ?e" by (intro power_int_increasing) simp_all
    with eb(1) qn n53 show False by simp
  qed
  then have p0: "?p \<le> 0" by simp
  then have pk: "?p = - int k" by (simp add: k_def)
  have "(2::rat) powi (- int k) = 1 / ?K" by (simp add: power_int_minus_divide)
  then have u: "(2::rat) powi ?p = 1 / ?K" by (simp only: pk)
  have K0: "0 < ?K" by simp
  have Kint: "of_int i * ?K = of_int (i * 2 ^ k)" for i by simp
  \<comment> \<open>the quotient lies at least \<open>1 / B\<close> above the integer below its ceiling\<close>
  have "of_int (?c - 1) < ?q" using ceiling_correct [of ?q] by simp
  then have "of_int (?c - 1) * of_nat B < (of_nat n :: rat)" using Bpos by (simp add: pos_less_divide_eq)
  then have "(of_int ((?c - 1) * int B) :: rat) < of_int (int n)" by simp
  then have "(?c - 1) * int B < int n" by (simp only: of_int_less_iff)
  then have "(?c - 1) * int B + 1 \<le> int n" by simp
  then have "(of_int ((?c - 1) * int B + 1) :: rat) \<le> of_int (int n)" by (simp only: of_int_le_iff)
  then have "of_int (?c - 1) * of_nat B + 1 \<le> (of_nat n :: rat)" by simp
  then have "(of_int (?c - 1) * of_nat B + 1) / of_nat B \<le> ?q"
    using Bpos by (simp add: divide_le_cancel)
  then have gap: "of_int (?c - 1) + 1 / of_nat B \<le> ?q"
    using Bpos by (simp add: add_divide_distrib)
  \<comment> \<open>half a unit in the last place is less than \<open>1 / B\<close>\<close>
  have half: "(of_nat B :: rat) < 2 * ?K"
  proof (cases "- 1022 \<le> ?e")
    case True
    then have "int k = 52 - ?e" using pk by simp
    then have "(2::rat) powi (int k) = 2 powi (52 - ?e)" by (simp only:)
    then have K: "?K = 2 ^ 52 / 2 powi ?e" by (simp add: power_int_diff)
    have e0: "(0::rat) < 2 powi ?e" by simp
    have "of_nat B * 2 powi ?e \<le> (of_nat n :: rat)"
      using eb(1) Bpos by (simp add: pos_le_divide_eq mult.commute)
    with n53 have "of_nat B * 2 powi ?e < (2::rat) ^ 53" by simp
    then have "(of_nat B :: rat) < 2 ^ 53 / 2 powi ?e" using e0 by (simp add: pos_less_divide_eq)
    also have "\<dots> = 2 * ?K" by (simp add: K)
    finally show ?thesis .
  next
    case False
    then have "k = 1074" using pk by simp
    moreover have "(of_nat B :: rat) < 2 ^ 1075"
      using B(2) by (metis of_nat_numeral of_nat_power of_nat_less_iff)
    moreover have "(2::rat) ^ 1075 = 2 * 2 ^ 1074" by simp
    ultimately show ?thesis by (simp only:)
  qed
  then have h1: "1 / 2 < ?K / of_nat B" using Bpos by (simp add: pos_less_divide_eq)
  have h2: "(of_int (?c - 1) + 1 / of_nat B) * ?K \<le> ?q * ?K"
    using gap K0 by (simp only: mult_le_cancel_right_pos)
  have h3: "(of_int (?c - 1) + 1 / of_nat B) * ?K = of_int (?c - 1) * ?K + ?K / of_nat B"
    by (simp add: distrib_right)
  from h2 have "of_int (?c - 1) * ?K + ?K / of_nat B \<le> ?q * ?K" by (simp only: h3)
  with h1 have "of_int (?c - 1) * ?K + 1 / 2 < ?q * ?K" by linarith
  then have "of_int ((?c - 1) * 2 ^ k) + 1 / 2 < ?q * ?K" by (simp only: Kint)
  then have lo: "(?c - 1) * 2 ^ k < ?m" by (rule round_half_even_gt)
  have "?q \<le> of_int ?c" by simp
  then have "?q * ?K \<le> of_int ?c * ?K" using K0 by (simp only: mult_le_cancel_right_pos)
  then have "?q * ?K \<le> of_int (?c * 2 ^ k)" by (simp only: Kint)
  then have hi: "?m \<le> ?c * 2 ^ k" by (rule round_half_even_le)
  let ?x = "of_int ?m / ?K"
  from lo have "(of_int ((?c - 1) * 2 ^ k) :: rat) < of_int ?m" by (simp only: of_int_less_iff)
  then have "of_int (?c - 1) * ?K < of_int ?m" by (simp only: Kint)
  then have x1: "of_int ?c - 1 < ?x" using K0 by (simp add: pos_less_divide_eq)
  from hi have "(of_int ?m :: rat) \<le> of_int (?c * 2 ^ k)" by (simp only: of_int_le_iff)
  then have "of_int ?m \<le> of_int ?c * ?K" by (simp only: Kint)
  then have x2: "?x \<le> of_int ?c" using K0 by (simp add: pos_divide_le_eq)
  from x1 x2 have c: "\<lceil>?x\<rceil> = ?c" by (intro ceiling_unique) simp_all
  have "?c \<le> int n" using qn by (simp add: ceiling_le_iff)
  then have "(of_int ?c :: rat) \<le> of_nat n" by (metis of_int_le_iff of_int_of_nat_eq)
  with x2 n53 have "?x < 2 ^ 53" by simp
  also have "(2::rat) ^ 53 \<le> 2 ^ 1024" by (intro power_increasing) simp_all
  finally have fin: "\<not> 2 powi 1024 \<le> ?x" by simp
  have "true_divide n B = Inr ?x"
    using n(1) B(1) fin unfolding true_divide_def Let_def u
    by (simp add: divide_inverse mult.commute)
  with c show ?thesis by blast
qed


lemma num_batches_exact:
  assumes "n < 2 ^ 53" and "0 < B" "B < 2 ^ 1075"
  shows "num_batches n B = Inr (nat \<lceil>(of_nat n :: rat) / of_nat B\<rceil>)"
proof (cases "n = 0")
  case True
  then show ?thesis using assms(2) by (simp add: num_batches_def true_divide_def)
next
  case False
  then have "0 < n" by simp
  from true_divide_ceiling [OF this assms]
  show ?thesis by (auto simp: num_batches_def)
qed

lemma num_batches_underflow:
  assumes a: "0 < a" and small: "a * 2 ^ 1075 \<le> b"
  shows "num_batches a b = Inr 0"
proof -
  let ?q = "(of_nat a :: rat) / of_nat b"
  let ?e = "binary_exponent a b"
  define K :: rat where "K = 2 ^ 1074"
  have K0: "0 < K" by (simp only: K_def zero_less_power zero_less_numeral)
  have K2: "(2::rat) ^ 1075 = 2 * K" unfolding K_def by (simp only: power_Suc [symmetric]) simp
  have b: "0 < b" using a small by (cases b) simp_all
  then have bpos: "(0::rat) < of_nat b" by simp
  have q0: "0 < ?q" using a b by simp
  have "(of_nat (a * 2 ^ 1075) :: rat) \<le> of_nat b" using small by (simp only: of_nat_le_iff)
  then have "of_nat a * 2 ^ 1075 \<le> (of_nat b :: rat)"
    by (simp only: of_nat_mult of_nat_power of_nat_numeral)
  then have "of_nat a * (2 * K) \<le> (of_nat b :: rat)" by (simp only: K2)
  then have "(of_nat a * K) * 2 \<le> (of_nat b :: rat)" by (simp only: mult_ac)
  then have "of_nat a * K \<le> (of_nat b :: rat) / 2" by (simp add: pos_le_divide_eq)
  then have "of_nat a * K / of_nat b \<le> (of_nat b :: rat) / 2 / of_nat b"
    using bpos by (simp only: divide_le_cancel) simp
  also have "\<dots> = 1 / 2" using bpos by simp
  finally have x: "?q * K \<le> 1 / 2" by (simp only: times_divide_eq_left)
  have x0: "0 < ?q * K" using q0 K0 by (rule mult_pos_pos)
  have e: "?e < - 1022"
  proof (rule ccontr)
    assume "\<not> ?e < - 1022"
    then have "(2::rat) powi (- 1022) \<le> 2 powi ?e" by (intro power_int_increasing) simp_all
    from this binary_exponent_bounds(1) [OF a b]
    have "(2::rat) powi (- 1022) \<le> ?q" by (rule order_trans)
    then have h: "(2::rat) powi (- 1022) * K \<le> ?q * K"
      using K0 by (simp only: mult_le_cancel_right_pos)
    have "K = 2 powi 1074" unfolding K_def by (simp only: power_int_numeral)
    then have "(2::rat) powi (- 1022) * K = 2 powi (- 1022) * 2 powi 1074" by (simp only:)
    also have "\<dots> = 2 powi (- 1022 + 1074)" by (rule power_int_add [symmetric]) simp
    finally have k: "(2::rat) powi (- 1022) * K = 2 powi (- 1022 + 1074)" .
    have "(1::rat) \<le> 2 powi (- 1022 + 1074)" by (intro one_le_power_int) simp_all
    then have "1 \<le> (2::rat) powi (- 1022) * K" by (simp only: k)
    with h x show False by linarith
  qed
  define y where "y = ?q * K"
  have y: "0 < y" "y \<le> 1 / 2" using x x0 by (simp_all only: y_def)
  then have "y < 1" by linarith
  with y(1) have f: "\<lfloor>y\<rfloor> = 0" by (intro floor_unique) simp_all
  have "round_half_even y = 0" using y by (simp add: round_half_even_def f Let_def)
  then have r: "round_half_even (?q * K) = 0" by (simp only: y_def)
  have p: "max ?e (- 1022) - 52 = - 1074" using e by simp
  have u: "(2::rat) powi (- 1074) = 1 / K"
    unfolding K_def by (simp only: power_int_minus_divide power_int_numeral)
  have d: "?q / (1 / K) = ?q * K" by simp
  have "true_divide a b = Inr 0"
    using a b unfolding true_divide_def Let_def p u d r by simp
  then show ?thesis by (simp add: num_batches_def)
qed

lemma num_batches_zero:
  "num_batches 0 B = (if B = 0 then Inl ZeroDivisionError else Inr 0)"
  by (simp add: num_batches_def true_divide_def)


lemma num_batches_in_range:
  assumes "n < 2 ^ 53" and "0 < B" "B < 2 ^ 1075"
  shows "num_batches n B = Inr ((n + B - 1) div B)"
  using num_batches_exact [OF assms] ceiling_div_nat [OF assms(2), of n] by simp

text \<open>
  For fewer than \<open>2 ^ 53\<close> records and a batch size below \<open>2 ^ 1075\<close> the division of line
  245 is exact enough: there are \<open>\<lceil>n / B\<rceil>\<close> batches, numbered from 0; batch \<open>k\<close> holds the
  records at the global indices from \<open>k * B\<close> up to, not including, \<open>min ((k + 1) * B) n\<close>,
  is not empty and has at most \<open>B\<close> records; every index below \<open>n\<close> lies in exactly one
  batch, and the batches, in order, make up the input again.
\<close>

theorem partition_in_range:
  assumes "1 \<le> n" "n < 2 ^ 53" and "1 \<le> B" "B < 2 ^ 1075" and "length texts = n"
  shows "\<exists>nb. num_batches n B = Inr nb
      \<and> int nb = \<lceil>(of_nat n :: rat) / of_nat B\<rceil>
      \<and> (\<forall>k<nb. batch_texts B texts k = map ((!) texts) [k * B ..< min ((k + 1) * B) n])
      \<and> (\<forall>k<nb. batch_texts B texts k \<noteq> [] \<and> length (batch_texts B texts k) \<le> B)
      \<and> (\<forall>i<n. \<exists>!k. k < nb \<and> batch_start B k \<le> i \<and> i < batch_end B n k)
      \<and> concat (map (batch_texts B texts) [0..<nb]) = texts"
proof -
  let ?nb = "(n + B - 1) div B"
  have B: "0 < B" using assms(3) by simp
  have c2: "int ?nb = \<lceil>(of_nat n :: rat) / of_nat B\<rceil>"
    by (rule ceiling_div_nat [OF B, symmetric])
  have c1: "num_batches n B = Inr ?nb"
    using assms(2) B assms(4) by (rule num_batches_in_range)
  have c3: "\<forall>k<?nb. batch_texts B texts k = map ((!) texts) [k * B ..< min ((k + 1) * B) n]"
    using assms(5) by (simp add: batch_texts_def batch_start_def batch_end_def py_slice_nth)
  have c4: "\<forall>k<?nb. batch_texts B texts k \<noteq> [] \<and> length (batch_texts B texts k) \<le> B"
  proof (intro allI impI)
    fix k assume "k < ?nb"
    then have "k * B < n" by (rule num_batches_tight [OF B])
    then show "batch_texts B texts k \<noteq> [] \<and> length (batch_texts B texts k) \<le> B"
      using B assms(5) by (simp add: batch_texts_take_drop)
  qed
  have c5: "\<forall>i<n. \<exists>!k. k < ?nb \<and> batch_start B k \<le> i \<and> i < batch_end B n k"
    using batch_index_unique [OF B] by blast
  have "batch_texts B texts = (\<lambda>k. take B (drop (k * B) texts))"
    by (rule ext) (rule batch_texts_take_drop)
  then have "concat (map (batch_texts B texts) [0..<?nb]) = take (?nb * B) texts"
    by (simp only: concat_batches_take)
  also have "\<dots> = texts"
    using num_batches_covers [OF B, of n] assms(5) by simp
  finally have c6: "concat (map (batch_texts B texts) [0..<?nb]) = texts" .
  from c1 c2 c3 c4 c5 c6 show ?thesis by blast
qed

text \<open>
  Claim C8 fails on the program. For three records and the batch size \<open>2 ^ 1100\<close>, which
  \<^verbatim>\<open>--batch-size\<close> accepts, the quotient of line 245 rounds to the float 0: the program
  makes no batch where \<open>\<lceil>3 / B\<rceil> = 1\<close> batch has to hold the three records, sends no request,
  and ends with a table in which no record is labelled.
\<close>

theorem huge_batch_size_no_batch:
  "num_batches 3 (2 ^ 1100) = Inr 0
   \<and> \<lceil>(3::rat) / 2 ^ 1100\<rceil> = 1
   \<and> batch_texts (2 ^ 1100) [''a'', ''b'', ''c''] 0 = [''a'', ''b'', ''c'']
   \<and> main_async huge_cfg echo_loads echo_service (Some example_df)
        \<lparr>completion_order = [], gather_ends = Finished\<rparr> no_files
      = (Returned,
         \<lparr>all_labels = [None, None, None], completed_batches = {}, pending_batches = [],
          processed_count = 0,
          disk = \<lparr>checkpoint_file = Missing, intermediate_file = None,
                   output_parquet = Some [None, None, None],
                   output_csv = Some [None, None, None]\<rparr>,
          api_requests = 0\<rparr>)"
proof -
  have nb: "num_batches 3 (2 ^ 1100) = Inr 0"
    by (rule num_batches_underflow) simp_all
  have c: "\<lceil>(3::rat) / 2 ^ 1100\<rceil> = 1"
    by (rule ceiling_unique) simp_all
  have b: "batch_texts (2 ^ 1100) [''a'', ''b'', ''c''] 0 = [''a'', ''b'', ''c'']"
    by (simp add: batch_texts_take_drop)
  have inp: "map_of example_df (TEXT_COL huge_cfg) = Some [''a'', ''b'', ''c'']"
    by (simp add: example_df_def huge_cfg_def)
  have bs: "BATCH_SIZE huge_cfg = 2 ^ 1100" by (simp add: huge_cfg_def)
  have len: "length [''a'', ''b'', ''c''] = (3::nat)" by simp
  have "num_batches (length [''a'', ''b'', ''c'']) (BATCH_SIZE huge_cfg) = Inr 0"
    unfolding len bs by (rule nb)
  with inp have "main_async huge_cfg echo_loads echo_service (Some example_df)
        \<lparr>completion_order = [], gather_ends = Finished\<rparr> no_files
      = finish 3 (initial_state 3 0 no_files)"
    by (simp add: main_async_def numeral_3_eq_3)
  also have "\<dots> = (Returned,
         \<lparr>all_labels = [None, None, None], completed_batches = {}, pending_batches = [],
          processed_count = 0,
          disk = \<lparr>checkpoint_file = Missing, intermediate_file = None,
                   output_parquet = Some [None, None, None],
                   output_csv = Some [None, None, None]\<rparr>,
          api_requests = 0\<rparr>)"
    by code_simp
  finally show ?thesis using nb c b by simp
qed

subsection \<open>The retry loop\<close>

declare attempts.simps [simp del]

lemma attempts_response:
  "svc k = Inr resp \<Longrightarrow> attempts svc k = \<lparr>returned = Inr resp, requests = k, sleeps = []\<rparr>"
  by (simp add: attempts.simps [of svc k])

lemma attempts_fatal:
  "svc k = Inl (Inr e) \<Longrightarrow> attempts svc k = \<lparr>returned = Inl e, requests = k, sleeps = []\<rparr>"
  by (simp add: attempts.simps [of svc k])

lemma attempts_stop:
  "svc k = Inl (Inl e) \<Longrightarrow> call_api_stop k \<Longrightarrow>
   attempts svc k = \<lparr>returned = Inl RetryError, requests = k, sleeps = []\<rparr>"
  by (simp add: attempts.simps [of svc k])

lemma attempts_retry:
  "svc k = Inl (Inl e) \<Longrightarrow> \<not> call_api_stop k \<Longrightarrow>
   attempts svc k =
     (attempts svc (k + 1))\<lparr>sleeps := call_api_wait k # sleeps (attempts svc (k + 1))\<rparr>"
  by (simp add: attempts.simps [of svc k] Let_def)

lemma attempts_spec:
  "k \<le> requests (attempts svc k)
   \<and> sleeps (attempts svc k) = map call_api_wait [k..<requests (attempts svc k)]
   \<and> (\<forall>j. k \<le> j \<and> j < requests (attempts svc k) \<longrightarrow> retryable (svc j))
   \<and> returned (attempts svc k) = final_outcome (svc (requests (attempts svc k)))
   \<and> (retryable (svc (requests (attempts svc k))) \<longrightarrow> call_api_stop (requests (attempts svc k)))"
proof (induction svc k rule: attempts.induct)
  case (1 svc k)
  show ?case
  proof (cases "svc k")
    case (Inr resp)
    then show ?thesis by (auto simp: attempts_response)
  next
    case (Inl err)
    show ?thesis
    proof (cases err)
      case (Inr e)
      with Inl show ?thesis by (auto simp: attempts_fatal)
    next
      case (Inl e)
      with \<open>svc k = Inl err\<close> have sk: "svc k = Inl (Inl e)" by simp
      show ?thesis
      proof (cases "call_api_stop k")
        case True
        with sk show ?thesis by (auto simp: attempts_stop)
      next
        case False
        let ?r = "attempts svc (k + 1)"
        from "1.IH" [OF \<open>svc k = Inl err\<close> Inl False]
        have ih: "k + 1 \<le> requests ?r"
          "sleeps ?r = map call_api_wait [k + 1..<requests ?r]"
          "\<forall>j. k + 1 \<le> j \<and> j < requests ?r \<longrightarrow> retryable (svc j)"
          "returned ?r = final_outcome (svc (requests ?r))"
          "retryable (svc (requests ?r)) \<longrightarrow> call_api_stop (requests ?r)"
          by simp_all
        have eq: "attempts svc k = ?r\<lparr>sleeps := call_api_wait k # sleeps ?r\<rparr>"
          using sk False by (rule attempts_retry)
        have a: "k \<le> requests (attempts svc k)" using ih(1) eq by simp
        have "[k..<requests ?r] = k # [k + 1..<requests ?r]"
          using ih(1) by (simp add: upt_conv_Cons)
        then have b: "sleeps (attempts svc k) = map call_api_wait [k..<requests (attempts svc k)]"
          using ih(2) eq by simp
        have c: "\<forall>j. k \<le> j \<and> j < requests (attempts svc k) \<longrightarrow> retryable (svc j)"
        proof (intro allI impI)
          fix j assume j: "k \<le> j \<and> j < requests (attempts svc k)"
          show "retryable (svc j)"
          proof (cases "j = k")
            case True
            with sk show ?thesis by simp
          next
            case False
            with j eq have "k + 1 \<le> j \<and> j < requests ?r" by simp
            with ih(3) show ?thesis by blast
          qed
        qed
        have d: "returned (attempts svc k) = final_outcome (svc (requests (attempts svc k)))"
          using ih(4) eq by simp
        have e: "retryable (svc (requests (attempts svc k))) \<longrightarrow>
                 call_api_stop (requests (attempts svc k))"
          using ih(5) eq by simp
        from a b c d e show ?thesis by blast
      qed
    qed
  qed
qed

lemma attempts_bounded: "k \<le> 5 \<Longrightarrow> requests (attempts svc k) \<le> 5"
proof (induction svc k rule: attempts.induct)
  case (1 svc k)
  show ?case
  proof (cases "svc k")
    case (Inr resp)
    with "1.prems" show ?thesis by (simp add: attempts_response)
  next
    case (Inl err)
    show ?thesis
    proof (cases err)
      case (Inr e)
      with Inl "1.prems" show ?thesis by (simp add: attempts_fatal)
    next
      case (Inl e)
      with \<open>svc k = Inl err\<close> have sk: "svc k = Inl (Inl e)" by simp
      show ?thesis
      proof (cases "call_api_stop k")
        case True
        with sk "1.prems" show ?thesis by (simp add: attempts_stop)
      next
        case False
        then have "k + 1 \<le> 5" by (simp add: call_api_stop_def stop_after_attempt_def)
        with "1.IH" [OF \<open>svc k = Inl err\<close> Inl False]
        have "requests (attempts svc (k + 1)) \<le> 5" by simp
        moreover have "attempts svc k =
            (attempts svc (k + 1))\<lparr>sleeps := call_api_wait k # sleeps (attempts svc (k + 1))\<rparr>"
          using sk False by (rule attempts_retry)
        ultimately show ?thesis by simp
      qed
    qed
  qed
qed

lemma call_api_wait_eq: "call_api_wait k = max 2 (min (2 ^ (k - 1)) 60)"
  by (simp add: call_api_wait_def wait_exponential_def exponential_delay_def)

lemma exponential_delay_double:
  "1 \<le> k \<Longrightarrow> exponential_delay m (k + 1) = 2 * exponential_delay m k"
  by (cases k) (simp_all add: exponential_delay_def)

lemma call_api_wait_double:
  assumes "2 \<le> k"
  shows "call_api_wait (k + 1) = min 60 (2 * call_api_wait k)"
proof -
  obtain j where k: "k = Suc (Suc j)" using assms by (metis Suc_le_D numeral_2_eq_2 Suc_le_mono)
  have "(2::nat) \<le> 2 ^ Suc j" by simp
  then show ?thesis unfolding call_api_wait_eq k by (simp add: min_def max_def)
qed

lemma those_Some_map:
  "those xs = Some ys \<Longrightarrow> xs = map Some ys"
proof (induction xs arbitrary: ys)
  case Nil
  then show ?case by simp
next
  case (Cons x xs)
  then show ?case by (auto split: option.splits)
qed

lemma objects_of_map:
  assumes "those (map object_of data_list) = Some ds"
  shows "data_list = map (\<lambda>d. Object (fst d) (snd d)) ds"
proof -
  from assms have m: "map object_of data_list = map Some ds" by (rule those_Some_map)
  then have len: "length data_list = length ds" by (metis length_map)
  show ?thesis
  proof (rule nth_equalityI)
    show "length data_list = length (map (\<lambda>d. Object (fst d) (snd d)) ds)" using len by simp
  next
    fix i assume i: "i < length data_list"
    with m len have "object_of (data_list ! i) = Some (ds ! i)"
      by (metis nth_map)
    then have "data_list ! i = Object (fst (ds ! i)) (snd (ds ! i))"
      by (cases "data_list ! i") (auto dest: sym)
    with i len show "data_list ! i = map (\<lambda>d. Object (fst d) (snd d)) ds ! i" by simp
  qed
qed

lemma sorted_by_id_length:
  assumes "sorted_by_id data_list = Inr ds"
  shows "length ds = length data_list"
proof -
  from assms obtain os where os: "those (map object_of data_list) = Some os"
    by (auto simp: sorted_by_id_def split: option.splits)
  then have "data_list = map (\<lambda>d. Object (fst d) (snd d)) os" by (rule objects_of_map)
  then have "length data_list = length os" by (metis length_map)
  moreover from assms os have "length ds = length os"
    by (auto simp: sorted_by_id_def split: if_splits)
  ultimately show ?thesis by simp
qed

lemma read_reply_length:
  assumes "read_reply loads n resp = Inr ds"
  shows "length ds = n"
  using assms
  by (auto simp: read_reply_def split: list.splits option.splits document.splits if_splits
      sum.splits dest: sorted_by_id_length)

text \<open>
  Claim C3. Whatever the service does, \<^verbatim>\<open>label_batch_async\<close> returns one entry for each
  record of the batch and raises nothing. It sends between one and five requests; every
  request but the last failed with a retryable error (rate limit, timeout, connection), and a
  request that fails so before the fifth is followed by another one. Before the retry after
  attempt \<open>k\<close> it sleeps \<open>call_api_wait k\<close> seconds: the exponential delay \<open>2 ^ (k - 1)\<close>, which
  doubles with every attempt, kept between the minimum 2 (the first delay) and the cap 60.
  When all five requests fail with retryable errors, every entry is the failure entry
  \<open>None\<close>, after the sleeps 2, 2, 4 and 8.
\<close>

theorem retry_then_failure:
  fixes loads :: "string \<Rightarrow> 'a document option" and svc :: service and texts :: "string list"
  shows
    "length (labels (label_batch_async loads svc texts)) = length texts
     \<and> 1 \<le> requests (api_log (label_batch_async loads svc texts))
     \<and> requests (api_log (label_batch_async loads svc texts)) \<le> 5
     \<and> (\<forall>k. 1 \<le> k \<and> k < requests (api_log (label_batch_async loads svc texts))
            \<longrightarrow> retryable (svc (reviews_payload texts) k))
     \<and> (\<forall>k. 1 \<le> k \<and> k < 5 \<and> (\<forall>j. 1 \<le> j \<and> j \<le> k \<longrightarrow> retryable (svc (reviews_payload texts) j))
            \<longrightarrow> k < requests (api_log (label_batch_async loads svc texts)))
     \<and> sleeps (api_log (label_batch_async loads svc texts))
         = map call_api_wait [1..<requests (api_log (label_batch_async loads svc texts))]
     \<and> call_api_wait 1 = 2
     \<and> (\<forall>k. call_api_wait k = max 2 (min (exponential_delay 1 k) 60))
     \<and> (\<forall>k. 1 \<le> k \<longrightarrow> exponential_delay 1 (k + 1) = 2 * exponential_delay 1 k)
     \<and> (\<forall>k. 2 \<le> k \<longrightarrow> call_api_wait (k + 1) = min 60 (2 * call_api_wait k))
     \<and> ((\<forall>k. 1 \<le> k \<and> k \<le> 5 \<longrightarrow> retryable (svc (reviews_payload texts) k))
          \<longrightarrow> labels (label_batch_async loads svc texts) = replicate (length texts) None
              \<and> requests (api_log (label_batch_async loads svc texts)) = 5
              \<and> sleeps (api_log (label_batch_async loads svc texts)) = [2, 2, 4, 8])"
proof -
  let ?p = "svc (reviews_payload texts)"
  let ?L = "attempts ?p 1"
  have log: "api_log (label_batch_async loads svc texts) = ?L"
    by (simp add: label_batch_async_def call_api_def Let_def)
  have lab: "labels (label_batch_async loads svc texts) =
      (case returned ?L of
         Inl e \<Rightarrow> replicate (length texts) None
       | Inr resp \<Rightarrow>
           (case read_reply loads (length texts) resp of
              Inl e \<Rightarrow> replicate (length texts) None
            | Inr data_list \<Rightarrow> map Some data_list))"
    by (simp add: label_batch_async_def call_api_def Let_def)
  note spec = attempts_spec [of 1 ?p]
  have ge: "1 \<le> requests ?L" using spec by blast
  have le: "requests ?L \<le> 5" by (rule attempts_bounded) simp
  have sl: "sleeps ?L = map call_api_wait [1..<requests ?L]" using spec by blast
  have pre: "\<forall>k. 1 \<le> k \<and> k < requests ?L \<longrightarrow> retryable (?p k)" using spec by blast
  have fin: "returned ?L = final_outcome (?p (requests ?L))" using spec by blast
  have stop: "retryable (?p (requests ?L)) \<longrightarrow> 5 \<le> requests ?L"
    using spec by (simp add: call_api_stop_def stop_after_attempt_def)
  have c1: "length (labels (label_batch_async loads svc texts)) = length texts"
  proof (cases "returned ?L")
    case (Inl e)
    then show ?thesis by (simp add: lab)
  next
    case (Inr resp)
    have len: "\<And>ds. read_reply loads (length texts) resp = Inr ds \<Longrightarrow> length ds = length texts"
      by (rule read_reply_length)
    show ?thesis
    proof (cases "read_reply loads (length texts) resp")
      case (Inl e)
      with Inr show ?thesis by (simp add: lab)
    next
      case Inr2: (Inr ds)
      with Inr len [OF Inr2] show ?thesis by (simp add: lab)
    qed
  qed
  have c5: "\<forall>k. 1 \<le> k \<and> k < 5 \<and> (\<forall>j. 1 \<le> j \<and> j \<le> k \<longrightarrow> retryable (?p j))
            \<longrightarrow> k < requests ?L"
  proof (intro allI impI, rule ccontr)
    fix k
    assume k: "1 \<le> k \<and> k < 5 \<and> (\<forall>j. 1 \<le> j \<and> j \<le> k \<longrightarrow> retryable (?p j))"
      and "\<not> k < requests ?L"
    then have "requests ?L \<le> k" by simp
    with k ge have "retryable (?p (requests ?L))" by blast
    with stop have "5 \<le> requests ?L" by blast
    with \<open>requests ?L \<le> k\<close> k show False by linarith
  qed
  have c7: "call_api_wait 1 = 2" by (simp add: call_api_wait_eq)
  have c8: "\<forall>k. call_api_wait k = max 2 (min (exponential_delay 1 k) 60)"
    by (simp add: call_api_wait_def wait_exponential_def)
  have c9: "\<forall>k. 1 \<le> k \<longrightarrow> exponential_delay 1 (k + 1) = 2 * exponential_delay 1 k"
    using exponential_delay_double by blast
  have c10: "\<forall>k. 2 \<le> k \<longrightarrow> call_api_wait (k + 1) = min 60 (2 * call_api_wait k)"
    using call_api_wait_double by blast
  have c11: "(\<forall>k. 1 \<le> k \<and> k \<le> 5 \<longrightarrow> retryable (?p k))
          \<longrightarrow> labels (label_batch_async loads svc texts) = replicate (length texts) None
              \<and> requests ?L = 5 \<and> sleeps ?L = [2, 2, 4, 8]"
  proof
    assume all: "\<forall>k. 1 \<le> k \<and> k \<le> 5 \<longrightarrow> retryable (?p k)"
    with ge le have "retryable (?p (requests ?L))" by blast
    with stop le have r5: "requests ?L = 5" by simp
    from all have "retryable (?p 5)" by simp
    then have "final_outcome (?p 5) = Inl RetryError"
      by (cases "?p 5" rule: final_outcome.cases) simp_all
    with fin r5 have "returned ?L = Inl RetryError" by simp
    then have l: "labels (label_batch_async loads svc texts) = replicate (length texts) None"
      by (simp add: lab)
    have "[1..<5] = [1, 2, 3, 4::nat]" by (simp add: upt_rec)
    with sl r5 have "sleeps ?L = [2, 2, 4, 8]" by (simp add: call_api_wait_eq)
    with l r5 show "labels (label_batch_async loads svc texts) = replicate (length texts) None
              \<and> requests ?L = 5 \<and> sleeps ?L = [2, 2, 4, 8]" by simp
  qed
  from c1 ge le pre c5 sl c7 c8 c9 c10 c11 show ?thesis unfolding log by blast
qed

theorem retry_then_failure_witness:
  "labels (label_batch_async (\<lambda>s. None :: unit document option)
      (\<lambda>p k. Inl (Inl RateLimitError)) [''a'', ''b'']) = [None, None]
   \<and> requests (api_log (label_batch_async (\<lambda>s. None :: unit document option)
      (\<lambda>p k. Inl (Inl RateLimitError)) [''a'', ''b''])) = 5
   \<and> sleeps (api_log (label_batch_async (\<lambda>s. None :: unit document option)
      (\<lambda>p k. Inl (Inl RateLimitError)) [''a'', ''b''])) = [2, 2, 4, 8]"
proof -
  let ?svc = "(\<lambda>p k. Inl (Inl RateLimitError)) :: service"
  have h: "\<forall>k. 1 \<le> k \<and> k \<le> 5 \<longrightarrow> retryable (?svc (reviews_payload [''a'', ''b'']) k)"
    by simp
  from retry_then_failure [of "\<lambda>s. None :: unit document option" ?svc "[''a'', ''b'']"] h
  have "labels (label_batch_async (\<lambda>s. None :: unit document option) ?svc [''a'', ''b''])
          = replicate (length [''a'', ''b'']) None
     \<and> requests (api_log (label_batch_async (\<lambda>s. None :: unit document option) ?svc
          [''a'', ''b''])) = 5
     \<and> sleeps (api_log (label_batch_async (\<lambda>s. None :: unit document option) ?svc
          [''a'', ''b''])) = [2, 2, 4, 8]"
    by blast
  then show ?thesis by simp
qed

text \<open>
  Claim C4. When the service answers the request of a batch with a response whose content
  does not parse as JSON, or parses to something that is not a list, or to a list of another
  length than the batch, \<^verbatim>\<open>label_batch_async\<close> has sent exactly one request, has not slept
  for a retry, and returns the failure entry \<open>None\<close> for each record of the batch.
\<close>

theorem format_error_no_retry:
  fixes loads :: "string \<Rightarrow> 'a document option"
  assumes "svc (reviews_payload texts) 1 = Inr (Some content # rest)"
    and "loads (strip_code_fence (py_strip content)) = None
         \<or> loads (strip_code_fence (py_strip content)) = Some NonList
         \<or> (\<exists>data_list. loads (strip_code_fence (py_strip content)) = Some (JList data_list)
              \<and> length data_list \<noteq> length texts)"
  shows "labels (label_batch_async loads svc texts) = replicate (length texts) None
     \<and> requests (api_log (label_batch_async loads svc texts)) = 1
     \<and> sleeps (api_log (label_batch_async loads svc texts)) = []"
proof -
  have a: "attempts (svc (reviews_payload texts)) 1
      = \<lparr>returned = Inr (Some content # rest), requests = 1, sleeps = []\<rparr>"
    using assms(1) by (rule attempts_response)
  from assms(2) have "\<exists>e. read_reply loads (length texts) (Some content # rest) = Inl e"
    by (auto simp: read_reply_def)
  then obtain e where "read_reply loads (length texts) (Some content # rest) = Inl e" by blast
  with a show ?thesis
    by (simp add: label_batch_async_def call_api_def Let_def)
qed

theorem format_error_no_retry_witness:
  "labels (label_batch_async (\<lambda>s. Some (JList [Object (Some (IdInt 0)) ''x'']))
      (\<lambda>p k. Inr [Some ''[{}]'']) [''a'', ''b'']) = [None, None]
   \<and> requests (api_log (label_batch_async (\<lambda>s. Some (JList [Object (Some (IdInt 0)) ''x'']))
      (\<lambda>p k. Inr [Some ''[{}]'']) [''a'', ''b''])) = 1
   \<and> labels (label_batch_async (\<lambda>s. None :: string document option)
      (\<lambda>p k. Inr [Some ''not json'']) [''a'', ''b'']) = [None, None]
   \<and> requests (api_log (label_batch_async (\<lambda>s. None :: string document option)
      (\<lambda>p k. Inr [Some ''not json'']) [''a'', ''b''])) = 1"
proof -
  let ?bad = "\<lambda>s :: string. Some (JList [Object (Some (IdInt 0)) ''x''])"
  let ?svc = "(\<lambda>p k. Inr [Some ''[{}]'']) :: service"
  let ?svc2 = "(\<lambda>p k. Inr [Some ''not json'']) :: service"
  let ?none = "\<lambda>s :: string. None :: string document option"
  have 1: "?svc (reviews_payload [''a'', ''b'']) 1 = Inr (Some ''[{}]'' # [])" by simp
  have 2: "?bad (strip_code_fence (py_strip ''[{}]'')) = None
         \<or> ?bad (strip_code_fence (py_strip ''[{}]'')) = Some NonList
         \<or> (\<exists>data_list. ?bad (strip_code_fence (py_strip ''[{}]'')) = Some (JList data_list)
              \<and> length data_list \<noteq> length [''a'', ''b''])" by simp
  have 3: "?svc2 (reviews_payload [''a'', ''b'']) 1 = Inr (Some ''not json'' # [])" by simp
  have 4: "?none (strip_code_fence (py_strip ''not json'')) = None
         \<or> ?none (strip_code_fence (py_strip ''not json'')) = Some NonList
         \<or> (\<exists>data_list. ?none (strip_code_fence (py_strip ''not json'')) = Some (JList data_list)
              \<and> length data_list \<noteq> length [''a'', ''b''])" by simp
  from format_error_no_retry [of ?svc "[''a'', ''b'']" "''[{}]''" "[]" ?bad, OF 1 2]
       format_error_no_retry [of ?svc2 "[''a'', ''b'']" "''not json''" "[]" ?none, OF 3 4]
  show ?thesis by simp
qed

subsection \<open>The result table\<close>

lemma label_batch_async_length:
  "length (labels (label_batch_async loads svc texts)) = length texts"
proof -
  let ?L = "call_api (svc (reviews_payload texts))"
  show ?thesis
  proof (cases "returned ?L")
    case (Inl e)
    then show ?thesis by (simp add: label_batch_async_def Let_def)
  next
    case (Inr resp)
    show ?thesis
    proof (cases "read_reply loads (length texts) resp")
      case (Inl e)
      with Inr show ?thesis by (simp add: label_batch_async_def Let_def)
    next
      case Inr2: (Inr ds)
      then have "length ds = length texts" by (rule read_reply_length)
      with Inr Inr2 show ?thesis by (simp add: label_batch_async_def Let_def)
    qed
  qed
qed

lemma annotate_length:
  "length (annotate loads svc B texts b) = length (batch_texts B texts b)"
  by (simp add: annotate_def label_batch_async_length)

lemma batch_texts_length:
  "length (batch_texts B texts b) = batch_end B (length texts) b - batch_start B b"
  by (simp add: batch_texts_def py_slice_def batch_end_def batch_start_def)

lemma slice_assign_length:
  assumes "s \<le> e" "e \<le> length xs" "length v = e - s"
  shows "length (slice_assign xs s e v) = length xs"
  using assms by (simp add: slice_assign_def max_def)

lemma slice_assign_nth:
  assumes "s \<le> e" "e \<le> length xs" "length v = e - s" "i < length xs"
  shows "slice_assign xs s e v ! i = (if s \<le> i \<and> i < e then v ! (i - s) else xs ! i)"
proof -
  have m: "max s e = e" using assms(1) by simp
  consider "i < s" | "s \<le> i" "i < e" | "e \<le> i" by linarith
  then show ?thesis
  proof cases
    case 1
    then show ?thesis using assms by (simp add: slice_assign_def nth_append)
  next
    case 2
    then have "i - s < e - s" "\<not> i < s" by simp_all
    with 2 show ?thesis using assms by (simp add: slice_assign_def nth_append m)
  next
    case 3
    have ls: "length (take s xs) = s" using assms by simp
    have "\<not> i < length (take s xs)" using 3 assms(1) ls by linarith
    then have "slice_assign xs s e v ! i = (v @ drop e xs) ! (i - s)"
      unfolding slice_assign_def m by (simp only: nth_append if_False ls)
    also have "\<dots> = drop e xs ! (i - s - (e - s))"
    proof -
      have "\<not> i - s < length v" using 3 assms(1,3) by linarith
      then show ?thesis using assms(3) by (simp only: nth_append if_False)
    qed
    also have "i - s - (e - s) = i - e" using 3 assms(1) by simp
    also have "drop e xs ! (i - e) = xs ! i" using 3 assms(2,4) by simp
    finally show ?thesis using 3 by simp
  qed
qed

lemma in_batch_iff:
  assumes "0 < B" "i < n"
  shows "(batch_start B b \<le> i \<and> i < batch_end B n b) \<longleftrightarrow> i div B = b"
proof
  assume "batch_start B b \<le> i \<and> i < batch_end B n b"
  then have "b * B \<le> i" "i < (b + 1) * B" by (simp_all add: batch_start_def batch_end_def)
  then show "i div B = b" by (intro div_nat_eqI) (simp_all add: mult.commute)
next
  assume d: "i div B = b"
  have "i div B * B \<le> i" by (rule div_times_less_eq_dividend)
  moreover have "i < (i div B + 1) * B"
    using assms(1) by (metis Suc_eq_plus1 dividend_less_div_times mult.commute mult_Suc)
  ultimately show "batch_start B b \<le> i \<and> i < batch_end B n b"
    using d assms(2) by (simp add: batch_start_def batch_end_def)
qed

lemma record_batch_fields:
  "all_labels (record_batch B n b ls s)
     = slice_assign (all_labels s) (batch_start B b) (batch_end B n b) ls"
  "completed_batches (record_batch B n b ls s) = insert b (completed_batches s)"
  "processed_count (record_batch B n b ls s) = processed_count s + 1"
  "pending_batches (record_batch B n b ls s) = pending_batches s"
  "api_requests (record_batch B n b ls s) = api_requests s"
  by (simp_all add: record_batch_def Let_def)

lemma handle_batch_fields:
  "all_labels (handle_batch loads svc B texts b s)
     = slice_assign (all_labels s) (batch_start B b) (batch_end B (length texts) b)
         (annotate loads svc B texts b)"
  "completed_batches (handle_batch loads svc B texts b s) = insert b (completed_batches s)"
  "processed_count (handle_batch loads svc B texts b s) = processed_count s + 1"
  "pending_batches (handle_batch loads svc B texts b s) = pending_batches s"
  by (simp_all add: handle_batch_def Let_def record_batch_fields annotate_def)

lemma slice_assign_batch:
  assumes B: "0 < B" and len: "length xs = n"
    and v: "length v = batch_end B n b - batch_start B b"
  shows "length (slice_assign xs (batch_start B b) (batch_end B n b) v) = n"
    and "i < n \<Longrightarrow>
         slice_assign xs (batch_start B b) (batch_end B n b) v ! i
           = (if i div B = b then v ! (i mod B) else xs ! i)"
proof -
  let ?s = "batch_start B b" and ?e = "batch_end B n b"
  have e: "?e \<le> length xs" using len by (simp add: batch_end_def)
  have both: "length (slice_assign xs ?s ?e v) = n
      \<and> (i < n \<longrightarrow> slice_assign xs ?s ?e v ! i = (if i div B = b then v ! (i mod B) else xs ! i))"
  proof (cases "?s < n")
    case True
    then have se: "?s \<le> ?e" by (simp add: batch_start_def batch_end_def)
    have l: "length (slice_assign xs ?s ?e v) = n"
      using slice_assign_length [OF se e v] len by simp
    have "slice_assign xs ?s ?e v ! i = (if i div B = b then v ! (i mod B) else xs ! i)"
      if i: "i < n"
    proof -
      from i have i': "i < length xs" using len by simp
      have iff: "(?s \<le> i \<and> i < ?e) \<longleftrightarrow> i div B = b" using B i by (rule in_batch_iff)
      have "i div B = b \<Longrightarrow> i - ?s = i mod B"
        by (simp add: batch_start_def minus_div_mult_eq_mod [symmetric])
      with slice_assign_nth [OF se e v i'] iff show ?thesis by simp
    qed
    with l show ?thesis by blast
  next
    case False
    then have ns: "n \<le> ?s" by simp
    then have "?e \<le> ?s" by (simp add: batch_end_def)
    with v have "v = []" by simp
    moreover have "take ?s xs = xs" "drop ?s xs = []" using ns len by simp_all
    moreover have "max ?s ?e = ?s" using \<open>?e \<le> ?s\<close> by simp
    ultimately have same: "slice_assign xs ?s ?e v = xs" by (simp add: slice_assign_def)
    have "i div B \<noteq> b" if i: "i < n"
    proof
      assume "i div B = b"
      then have "b * B \<le> i" using div_times_less_eq_dividend [of i B] by simp
      with ns i show False by (simp add: batch_start_def)
    qed
    with same len show ?thesis by simp
  qed
  from both show "length (slice_assign xs ?s ?e v) = n" by blast
  assume "i < n"
  with both show "slice_assign xs ?s ?e v ! i = (if i div B = b then v ! (i mod B) else xs ! i)"
    by blast
qed

lemma handle_batch_table:
  assumes B: "0 < B" and len: "length (all_labels s) = length texts"
  shows "length (all_labels (handle_batch loads svc B texts b s)) = length texts"
    and "i < length texts \<Longrightarrow>
         all_labels (handle_batch loads svc B texts b s) ! i
           = (if i div B = b then annotate loads svc B texts b ! (i mod B) else all_labels s ! i)"
proof -
  let ?v = "annotate loads svc B texts b"
  have v: "length ?v = batch_end B (length texts) b - batch_start B b"
    by (simp add: annotate_length batch_texts_length)
  note sa = slice_assign_batch [OF B len v]
  show "length (all_labels (handle_batch loads svc B texts b s)) = length texts"
    using sa(1) by (simp add: handle_batch_fields)
  assume "i < length texts"
  then show "all_labels (handle_batch loads svc B texts b s) ! i
           = (if i div B = b then ?v ! (i mod B) else all_labels s ! i)"
    using sa(2) by (simp add: handle_batch_fields)
qed

lemma gather_table:
  assumes B: "0 < B"
  shows "length (all_labels s) = length texts \<Longrightarrow>
         length (all_labels (gather loads svc B texts batches s)) = length texts
         \<and> (\<forall>i < length texts.
              all_labels (gather loads svc B texts batches s) ! i
                = (if i div B \<in> set batches then annotate loads svc B texts (i div B) ! (i mod B)
                   else all_labels s ! i))"
proof (induction batches arbitrary: s)
  case Nil
  then show ?case by (simp add: gather_def)
next
  case (Cons b batches)
  let ?s1 = "handle_batch loads svc B texts b s"
  note hb = handle_batch_table [OF B Cons.prems(1), where loads = loads and svc = svc and b = b]
  have g: "gather loads svc B texts (b # batches) s = gather loads svc B texts batches ?s1"
    by (simp add: gather_def)
  from Cons.IH [OF hb(1)]
  have ih: "length (all_labels (gather loads svc B texts batches ?s1)) = length texts"
    "\<forall>i < length texts.
        all_labels (gather loads svc B texts batches ?s1) ! i
          = (if i div B \<in> set batches then annotate loads svc B texts (i div B) ! (i mod B)
             else all_labels ?s1 ! i)"
    by blast+
  show ?case unfolding g
  proof (intro conjI allI impI)
    show "length (all_labels (gather loads svc B texts batches ?s1)) = length texts" by (rule ih(1))
  next
    fix i assume i: "i < length texts"
    with ih(2) hb(2) [OF i]
    show "all_labels (gather loads svc B texts batches ?s1) ! i
        = (if i div B \<in> set (b # batches) then annotate loads svc B texts (i div B) ! (i mod B)
           else all_labels s ! i)"
      by auto
  qed
qed

lemma gather_fields:
  "completed_batches (gather loads svc B texts batches s) = completed_batches s \<union> set batches"
  "processed_count (gather loads svc B texts batches s) = processed_count s + length batches"
  "pending_batches (gather loads svc B texts batches s) = pending_batches s"
  by (induction batches arbitrary: s) (simp_all add: gather_def handle_batch_fields)







lemma main_async_valid:
  assumes "map_of df (TEXT_COL cfg) = Some texts"
    and "num_batches (length texts) (BATCH_SIZE cfg) = Inr nb"
  shows "main_async cfg loads svc (Some df) sched fs =
     (case gather_ends sched of
        Finished \<Rightarrow>
          finish (length texts)
            (gather loads svc (BATCH_SIZE cfg) texts (completion_order sched)
               (initial_state (length texts) nb fs))
      | Interrupted \<Rightarrow>
          (Returned, flush
            (gather loads svc (BATCH_SIZE cfg) texts (completion_order sched)
               (initial_state (length texts) nb fs)))
      | Crashed e \<Rightarrow>
          (Raised e, flush
            (gather loads svc (BATCH_SIZE cfg) texts (completion_order sched)
               (initial_state (length texts) nb fs)))
      | Cancelled \<Rightarrow>
          (Raised CancelledError,
            gather loads svc (BATCH_SIZE cfg) texts (completion_order sched)
               (initial_state (length texts) nb fs)))"
  using assms
  by (simp add: main_async_def gather_def Let_def split: ending.splits)

lemma flush_fields:
  "all_labels (flush s) = all_labels s"
  "completed_batches (flush s) = completed_batches s"
  "pending_batches (flush s) = pending_batches s"
  "load_checkpoint (disk (flush s))
     = Some \<lparr>ck_last_batch = (if completed_batches s = {} then 0 else Max (completed_batches s)),
             ck_labels = all_labels s, ck_completed_batches = completed_batches s\<rparr>"
  "output_parquet (disk (flush s)) = output_parquet (disk s)"
  "output_csv (disk (flush s)) = output_csv (disk s)"
  by (simp_all add: flush_def save_intermediate_def save_checkpoint_def load_checkpoint_def)

lemma finish_fields:
  "all_labels (snd (finish n s)) = all_labels s"
  "pending_batches (snd (finish n s)) = pending_batches s"
  "completed_batches (snd (finish n s)) = completed_batches s"
  "api_requests (snd (finish n s)) = api_requests s"
  by (simp_all add: finish_def Let_def split: sum.splits)

lemma finish_outcome:
  "fst (finish n s)
     = (case labels_frame (all_labels s) of
          Inl e \<Rightarrow> Raised e
        | Inr labels_df \<Rightarrow> if n = 0 then Raised ZeroDivisionError else Returned)"
  by (simp add: finish_def Let_def split: sum.splits)


lemma initial_state_fresh:
  assumes "load_checkpoint fs = None"
  shows "initial_state n nb fs =
     \<lparr>all_labels = replicate n None, completed_batches = {}, pending_batches = [0..<nb],
      processed_count = 0, disk = fs, api_requests = 0\<rparr>"
  using assms by (simp add: initial_state_def)







subsection \<open>Runs of the pipeline\<close>

lemma example_input:
  "map_of example_df (TEXT_COL example_cfg) = Some [''a'', ''b'', ''c'']"
  "num_batches (length [''a'', ''b'', ''c'']) (BATCH_SIZE example_cfg) = Inr 2"
  by (simp add: example_df_def example_cfg_def, code_simp)


lemma gather_all_labels_cong:
  "all_labels s = all_labels s' \<Longrightarrow>
   all_labels (gather loads svc B texts batches s) = all_labels (gather loads svc B texts batches s')"
proof (induction batches arbitrary: s s')
  case Nil
  then show ?case by (simp add: gather_def)
next
  case (Cons b batches)
  have "all_labels (handle_batch loads svc B texts b s) = all_labels (handle_batch loads svc B texts b s')"
    using Cons.prems by (simp add: handle_batch_fields)
  then have "all_labels (gather loads svc B texts batches (handle_batch loads svc B texts b s))
      = all_labels (gather loads svc B texts batches (handle_batch loads svc B texts b s'))"
    by (rule Cons.IH)
  then show ?case by (simp add: gather_def)
qed

lemma main_async_table_cong:
  assumes "\<And>n nb. all_labels (initial_state n nb fs) = all_labels (initial_state n nb fs')"
  shows "fst (main_async cfg loads svc input_file sched fs)
           = fst (main_async cfg loads svc input_file sched fs')"
    and "all_labels (snd (main_async cfg loads svc input_file sched fs))
           = all_labels (snd (main_async cfg loads svc input_file sched fs'))"
proof -
  have g: "all_labels (fold (handle_batch loads svc B texts) order (initial_state n nb fs))
      = all_labels (fold (handle_batch loads svc B texts) order (initial_state n nb fs'))"
    for B texts order n nb
    using gather_all_labels_cong [OF assms] by (simp add: gather_def)
  show "fst (main_async cfg loads svc input_file sched fs)
           = fst (main_async cfg loads svc input_file sched fs')"
    using g
    by (simp add: main_async_def Let_def finish_outcome not_started_def
        split: option.splits sum.splits ending.splits)
  show "all_labels (snd (main_async cfg loads svc input_file sched fs))
           = all_labels (snd (main_async cfg loads svc input_file sched fs'))"
    using g
    by (simp add: main_async_def Let_def finish_fields flush_fields not_started_def
        split: option.splits sum.splits ending.splits)
qed

text \<open>
  Claim C10. When the checkpoint file exists but loading it raises, \<^verbatim>\<open>load_checkpoint\<close>
  returns \<^verbatim>\<open>None\<close>; the run then starts with a table of \<open>n\<close> absent entries, no completed
  batch and every batch pending, and it ends as the same run without a checkpoint file ends,
  with the same result table.
\<close>

theorem unreadable_checkpoint_fresh_start:
  fixes fs :: "'a files"
  assumes "checkpoint_file fs = Unreadable"
  shows "load_checkpoint fs = None
     \<and> all_labels (initial_state n nb fs) = replicate n None
     \<and> completed_batches (initial_state n nb fs) = {}
     \<and> pending_batches (initial_state n nb fs) = [0..<nb]
     \<and> fst (main_async cfg loads svc input_file sched fs)
         = fst (main_async cfg loads svc input_file sched (fs\<lparr>checkpoint_file := Missing\<rparr>))
     \<and> all_labels (snd (main_async cfg loads svc input_file sched fs))
         = all_labels (snd (main_async cfg loads svc input_file sched (fs\<lparr>checkpoint_file := Missing\<rparr>)))"
proof -
  have l: "load_checkpoint fs = None" using assms by (simp add: load_checkpoint_def)
  have l': "load_checkpoint (fs\<lparr>checkpoint_file := Missing\<rparr>) = None"
    by (simp add: load_checkpoint_def)
  have i: "all_labels (initial_state n nb fs)
      = all_labels (initial_state n nb (fs\<lparr>checkpoint_file := Missing\<rparr>))" for n nb
    by (simp add: initial_state_fresh [OF l] initial_state_fresh [OF l'])
  from l main_async_table_cong [OF i, of cfg loads svc input_file sched]
  show ?thesis by (simp add: initial_state_fresh [OF l])
qed

theorem unreadable_checkpoint_fresh_start_witness:
  "load_checkpoint (no_files\<lparr>checkpoint_file := Unreadable\<rparr> :: char files) = None
   \<and> main_async example_cfg echo_loads echo_service (Some example_df)
        \<lparr>completion_order = [0, 1], gather_ends = Finished\<rparr> (no_files\<lparr>checkpoint_file := Unreadable\<rparr>)
      = main_async example_cfg echo_loads echo_service (Some example_df)
        \<lparr>completion_order = [0, 1], gather_ends = Finished\<rparr> no_files
   \<and> all_labels (snd (main_async example_cfg echo_loads echo_service (Some example_df)
        \<lparr>completion_order = [0, 1], gather_ends = Finished\<rparr> (no_files\<lparr>checkpoint_file := Unreadable\<rparr>)))
      = [Some CHR ''a'', Some CHR ''b'', Some CHR ''c'']"
proof -
  have u: "checkpoint_file (no_files\<lparr>checkpoint_file := Unreadable\<rparr> :: char files) = Unreadable"
    by simp
  have e: "main_async example_cfg echo_loads echo_service (Some example_df)
        \<lparr>completion_order = [0, 1], gather_ends = Finished\<rparr> (no_files\<lparr>checkpoint_file := Unreadable\<rparr>)
      = main_async example_cfg echo_loads echo_service (Some example_df)
        \<lparr>completion_order = [0, 1], gather_ends = Finished\<rparr> no_files"
    unfolding main_async_valid [OF example_input] by code_simp
  have v: "all_labels (snd (main_async example_cfg echo_loads echo_service (Some example_df)
        \<lparr>completion_order = [0, 1], gather_ends = Finished\<rparr> no_files))
      = [Some CHR ''a'', Some CHR ''b'', Some CHR ''c'']"
    unfolding main_async_valid [OF example_input] by code_simp
  from unreadable_checkpoint_fresh_start [OF u, of 3 2 example_cfg echo_loads echo_service
      "Some example_df" "\<lparr>completion_order = [0, 1], gather_ends = Finished\<rparr>"] e v
  show ?thesis by simp
qed

lemma gather_api_requests_Nil:
  "api_requests (gather loads svc B texts [] s) = api_requests s"
  by (simp add: gather_def)

text \<open>
  Claim C9, amended. An input that lacks the configured text column makes the run exit with
  status 1 before anything else happens: the files are as they were, no task exists and no
  request has been sent. An input without rows is not rejected; for it no task is created
  and no request is sent.
\<close>

theorem missing_column_exits:
  "(map_of df (TEXT_COL cfg) = None \<longrightarrow>
      main_async cfg loads svc (Some df) sched fs = (Exited 1, not_started fs)
      \<and> disk (not_started fs) = fs
      \<and> pending_batches (not_started fs) = []
      \<and> api_requests (not_started fs) = 0)
   \<and> (map_of df (TEXT_COL cfg) = Some []
        \<and> set (completion_order sched)
            \<subseteq> set (pending_batches (snd (main_async cfg loads svc (Some df) sched fs))) \<longrightarrow>
      pending_batches (snd (main_async cfg loads svc (Some df) sched fs)) = []
      \<and> api_requests (snd (main_async cfg loads svc (Some df) sched fs)) = 0)"
proof (intro conjI impI)
  assume "map_of df (TEXT_COL cfg) = None"
  then show "main_async cfg loads svc (Some df) sched fs = (Exited 1, not_started fs)"
    by (simp add: main_async_def)
  show "disk (not_started fs) = fs" by (simp add: not_started_def)
  show "pending_batches (not_started fs) = []" by (simp add: not_started_def)
  show "api_requests (not_started fs) = 0" by (simp add: not_started_def)
next
  let ?r = "main_async cfg loads svc (Some df) sched fs"
  assume a: "map_of df (TEXT_COL cfg) = Some []
        \<and> set (completion_order sched) \<subseteq> set (pending_batches (snd ?r))"
  then have t: "map_of df (TEXT_COL cfg) = Some []" by simp
  have p: "pending_batches (snd ?r) = []"
  proof (cases "BATCH_SIZE cfg = 0")
    case True
    with t show ?thesis by (simp add: main_async_def num_batches_zero not_started_def)
  next
    case False
    then have nb: "num_batches (length ([] :: string list)) (BATCH_SIZE cfg) = Inr 0"
      by (simp add: num_batches_zero)
    have i: "pending_batches (initial_state 0 0 fs) = []"
      by (simp add: initial_state_def split: option.splits)
    show ?thesis
      using i
      by (simp add: main_async_valid [OF t nb] finish_fields flush_fields gather_fields
          split: ending.splits)
  qed
  then show "pending_batches (snd ?r) = []" .
  from a p have o: "completion_order sched = []" by simp
  show "api_requests (snd ?r) = 0"
  proof (cases "BATCH_SIZE cfg = 0")
    case True
    with t show ?thesis by (simp add: main_async_def num_batches_zero not_started_def)
  next
    case False
    then have nb: "num_batches (length ([] :: string list)) (BATCH_SIZE cfg) = Inr 0"
      by (simp add: num_batches_zero)
    have i: "api_requests (initial_state 0 0 fs) = 0"
      by (simp add: initial_state_def split: option.splits)
    show ?thesis
      using i o
      by (simp add: main_async_valid [OF t nb] finish_fields flush_def
          gather_api_requests_Nil split: ending.splits)
  qed
qed

theorem missing_column_exits_witness:
  "main_async example_cfg echo_loads echo_service (Some [(''text'', [''a''])])
      \<lparr>completion_order = [], gather_ends = Finished\<rparr> no_files = (Exited 1, not_started no_files)
   \<and> disk (not_started no_files :: char run_state) = no_files
   \<and> pending_batches (snd (main_async example_cfg echo_loads echo_service (Some empty_df)
      \<lparr>completion_order = [], gather_ends = Finished\<rparr> no_files)) = []
   \<and> api_requests (snd (main_async example_cfg echo_loads echo_service (Some empty_df)
      \<lparr>completion_order = [], gather_ends = Finished\<rparr> no_files)) = 0"
proof -
  let ?sched = "\<lparr>completion_order = [], gather_ends = Finished\<rparr>"
  have 1: "map_of [(''text'', [''a''])] (TEXT_COL example_cfg) = None"
    by (simp add: example_cfg_def)
  have 2: "map_of empty_df (TEXT_COL example_cfg) = Some []
        \<and> set (completion_order ?sched)
            \<subseteq> set (pending_batches (snd (main_async example_cfg echo_loads echo_service
                  (Some empty_df) ?sched no_files)))"
    by (simp add: example_cfg_def empty_df_def)
  from missing_column_exits [of "[(''text'', [''a''])]" example_cfg echo_loads echo_service ?sched no_files] 1
  have a: "main_async example_cfg echo_loads echo_service (Some [(''text'', [''a''])]) ?sched no_files
      = (Exited 1, not_started no_files)
      \<and> disk (not_started no_files :: char run_state) = no_files"
    by blast
  from missing_column_exits [of empty_df example_cfg echo_loads echo_service ?sched no_files] 2
  have b: "pending_batches (snd (main_async example_cfg echo_loads echo_service (Some empty_df)
      ?sched no_files)) = []
   \<and> api_requests (snd (main_async example_cfg echo_loads echo_service (Some empty_df)
      ?sched no_files)) = 0"
    by blast
  from a b show ?thesis by blast
qed

text \<open>
  Claim C9 as stated fails for an input without rows: the run goes through to the end,
  writes both output tables and stops in the summary, not in a validation of the input.
\<close>

theorem empty_source_counterexample:
  "main_async example_cfg echo_loads echo_service (Some empty_df)
      \<lparr>completion_order = [], gather_ends = Finished\<rparr> no_files
   = (Raised ZeroDivisionError,
      \<lparr>all_labels = [], completed_batches = {}, pending_batches = [], processed_count = 0,
       disk = \<lparr>checkpoint_file = Missing, intermediate_file = None,
                output_parquet = Some [], output_csv = Some []\<rparr>,
       api_requests = 0\<rparr>)"
  by code_simp







text \<open>
  A run whose first batch is labelled and whose second batch fails ends in line 324: nothing
  is written and nothing is deleted.
\<close>

lemma mixed_table_raises:
  "main_async example_cfg echo_loads
      (\<lambda>payload k. if length payload = 1 then Inl (Inl RateLimitError) else echo_service payload k)
      (Some example_df) \<lparr>completion_order = [0, 1], gather_ends = Finished\<rparr> no_files
   = (Raised AttributeError,
      \<lparr>all_labels = [Some CHR ''a'', Some CHR ''b'', None], completed_batches = {0, 1},
       pending_batches = [0, 1], processed_count = 2, disk = no_files, api_requests = 6\<rparr>)"
  unfolding main_async_valid [OF example_input] by code_simp




subsection \<open>Sorting the reply by id\<close>

lemma those_object_of:
  "those (map object_of (map (\<lambda>d. Object (fst d) (snd d)) ds)) = Some ds"
  by (induction ds) simp_all

lemma sort_key_short:
  "length xs \<le> 1 \<Longrightarrow> sort_key f xs = xs"
  by (cases xs) (simp_all add: Suc_le_eq)

lemma sorted_by_id_ints:
  assumes "\<forall>d \<in> set ds. is_int (get_id d)"
  shows "sorted_by_id (map (\<lambda>d. Object (fst d) (snd d)) ds)
       = Inr (sort_key (\<lambda>d. int_of (get_id d)) ds)"
proof -
  have "sorted_by_id (map (\<lambda>d. Object (fst d) (snd d)) ds)
      = (if length ds \<le> 1 then Inr ds
         else if list_all (\<lambda>d. is_int (get_id d)) ds
           then Inr (sort_key (\<lambda>d. int_of (get_id d)) ds)
         else if list_all (\<lambda>d. is_str (get_id d)) ds
           then Inr (sort_key (\<lambda>d. str_of (get_id d)) ds)
         else Inl TypeError)"
    by (simp only: sorted_by_id_def those_object_of option.case)
  with assms show ?thesis by (simp add: sort_key_short list_all_iff)
qed

lemma annotate_sorted:
  fixes loads :: "string \<Rightarrow> 'a document option"
  assumes resp: "returned (call_api (svc (reviews_payload batch))) = Inr (Some content # rest)"
    and parsed: "loads (strip_code_fence (py_strip content))
                   = Some (JList (map (\<lambda>d. Object (fst d) (snd d)) ds))"
    and len: "length ds = length batch"
    and ints: "\<forall>d \<in> set ds. is_int (get_id d)"
  shows "labels (label_batch_async loads svc batch)
       = map (\<lambda>d. Some (snd d)) (sort_key (\<lambda>d. int_of (get_id d)) ds)"
proof -
  have "read_reply loads (length batch) (Some content # rest)
      = Inr (map snd (sort_key (\<lambda>d. int_of (get_id d)) ds))"
    using parsed len by (simp add: read_reply_def sorted_by_id_ints [OF ints])
  with resp show ?thesis
    by (simp add: label_batch_async_def Let_def comp_def)
qed

lemma sorted_ids_identity:
  assumes ints: "\<forall>d \<in> set ds. is_int (get_id d)"
    and perm: "mset (map get_id ds) = mset (map (\<lambda>j. IdInt (int j)) [0..<length ds])"
    and j: "j < length ds"
  shows "sort_key (\<lambda>d. int_of (get_id d)) ds ! j \<in> set ds"
    and "get_id (sort_key (\<lambda>d. int_of (get_id d)) ds ! j) = IdInt (int j)"
proof -
  let ?k = "\<lambda>d. int_of (get_id d)"
  let ?ys = "sort_key ?k ds"
  have len: "length ?ys = length ds" by simp
  have "mset (map int_of (map get_id ds))
      = mset (map int_of (map (\<lambda>j. IdInt (int j)) [0..<length ds]))"
    using perm by (simp only: mset_map)
  moreover have "map int_of (map get_id ds) = map ?k ds" by simp
  moreover have "map int_of (map (\<lambda>j. IdInt (int j)) [0..<length ds]) = map int [0..<length ds]"
    by simp
  ultimately have m: "mset (map ?k ds) = mset (map int [0..<length ds])"
    by (simp only:)
  have s1: "sorted (map int [0..<length ds])"
    by (simp add: sorted_iff_nth_mono)
  have "sort (map ?k ds) = map int [0..<length ds]"
    using m [symmetric] s1 by (rule properties_for_sort)
  moreover have "sort (map ?k ds) = map ?k ?ys"
    by (rule properties_for_sort) simp_all
  ultimately have "map ?k ?ys = map int [0..<length ds]" by simp
  then have "map ?k ?ys ! j = map int [0..<length ds] ! j" by simp
  with j len have k: "?k (?ys ! j) = int j" by simp
  have "?ys ! j \<in> set ?ys" using j len by (metis nth_mem)
  then show mem: "?ys ! j \<in> set ds" by simp
  with ints have "is_int (get_id (?ys ! j))" by blast
  then have "get_id (?ys ! j) = IdInt (?k (?ys ! j))"
    by (cases "get_id (?ys ! j)") simp_all
  with k show "get_id (?ys ! j) = IdInt (int j)" by simp
qed

lemma batch_offset:
  assumes B: "0 < B" and j: "j < batch_end B n b - batch_start B b"
  shows "b * B + j < n" and "(b * B + j) div B = b" and "(b * B + j) mod B = j"
proof -
  from j have lt: "b * B + j < batch_end B n b" by (simp add: batch_start_def)
  then show "b * B + j < n" by (simp add: batch_end_def)
  from lt have jB: "j < B" by (simp add: batch_end_def)
  then show "(b * B + j) div B = b" using B by simp
  from jB show "(b * B + j) mod B = j" by simp
qed

text \<open>
  Claim C2, amended. Let \<^verbatim>\<open>call_api\<close> return, at the first request or after retries, a
  response to the request of batch \<open>b\<close> whose content is a list of as many objects as the
  batch has records, the id of each an integer or missing. Then the entries returned for
  the batch are the fields of these objects, without the id, in the order of a stable sort
  by id in which a missing id counts as 0; the ids are not compared with the positions
  \<open>0, \<dots>, N - 1\<close>. In whatever order the batches complete, the entry of the result table at
  the global index \<open>b * B + j\<close> is entry \<open>j\<close> of that list; and when the ids of the reply are
  exactly \<open>0, \<dots>, N - 1\<close> in some order, it is the object that carried the id \<open>j\<close>.
\<close>

theorem reconcile_by_id:
  fixes loads :: "string \<Rightarrow> 'a document option"
  assumes B: "1 \<le> B"
    and resp: "returned (call_api (svc (reviews_payload (batch_texts B texts b))))
                 = Inr (Some content # rest)"
    and parsed: "loads (strip_code_fence (py_strip content))
                   = Some (JList (map (\<lambda>d. Object (fst d) (snd d)) ds))"
    and len: "length ds = length (batch_texts B texts b)"
    and ints: "\<forall>d \<in> set ds. is_int (get_id d)"
    and order: "b \<in> set order"
    and tab: "length (all_labels s) = length texts"
  shows "annotate loads svc B texts b
         = map (\<lambda>d. Some (snd d)) (sort_key (\<lambda>d. int_of (get_id d)) ds)
     \<and> (\<forall>j < length ds.
           all_labels (gather loads svc B texts order s) ! (b * B + j)
             = annotate loads svc B texts b ! j)
     \<and> (mset (map get_id ds) = mset (map (\<lambda>j. IdInt (int j)) [0..<length ds]) \<longrightarrow>
           (\<forall>j < length ds. \<exists>d \<in> set ds. get_id d = IdInt (int j)
              \<and> all_labels (gather loads svc B texts order s) ! (b * B + j) = Some (snd d)))"
proof -
  let ?n = "length texts"
  let ?ys = "sort_key (\<lambda>d. int_of (get_id d)) ds"
  have B0: "0 < B" using B by simp
  have c2: "annotate loads svc B texts b = map (\<lambda>d. Some (snd d)) ?ys"
    unfolding annotate_def using resp parsed len ints by (rule annotate_sorted)
  note g = gather_table [OF B0 tab, where loads = loads and svc = svc and batches = order]
  have c3: "\<forall>j < length ds.
           all_labels (gather loads svc B texts order s) ! (b * B + j)
             = annotate loads svc B texts b ! j"
  proof (intro allI impI)
    fix j assume "j < length ds"
    then have j: "j < batch_end B ?n b - batch_start B b"
      using len by (simp add: batch_texts_length)
    note o = batch_offset [OF B0 j]
    from g o(1) have "all_labels (gather loads svc B texts order s) ! (b * B + j)
        = (if (b * B + j) div B \<in> set order
           then annotate loads svc B texts ((b * B + j) div B) ! ((b * B + j) mod B)
           else all_labels s ! (b * B + j))"
      by blast
    then show "all_labels (gather loads svc B texts order s) ! (b * B + j)
        = annotate loads svc B texts b ! j"
      using order by (simp only: o(2) o(3) if_True)
  qed
  have c4: "mset (map get_id ds) = mset (map (\<lambda>j. IdInt (int j)) [0..<length ds]) \<longrightarrow>
           (\<forall>j < length ds. \<exists>d \<in> set ds. get_id d = IdInt (int j)
              \<and> all_labels (gather loads svc B texts order s) ! (b * B + j) = Some (snd d))"
  proof (intro impI allI)
    fix j
    assume perm: "mset (map get_id ds) = mset (map (\<lambda>j. IdInt (int j)) [0..<length ds])"
      and j: "j < length ds"
    note si = sorted_ids_identity [OF ints perm j]
    from c3 j have "all_labels (gather loads svc B texts order s) ! (b * B + j)
        = annotate loads svc B texts b ! j" by blast
    also have "\<dots> = Some (snd (?ys ! j))" using j by (simp add: c2)
    finally show "\<exists>d \<in> set ds. get_id d = IdInt (int j)
        \<and> all_labels (gather loads svc B texts order s) ! (b * B + j) = Some (snd d)"
      using si by blast
  qed
  from c2 c3 c4 show ?thesis by blast
qed

theorem reconcile_by_id_witness:
  "requests (call_api (late_service (reviews_payload (batch_texts 2 [''a'', ''b'', ''c''] 0)))) = 2
   \<and> annotate reversing_loads late_service 2 [''a'', ''b'', ''c''] 0 = [Some CHR ''a'', Some CHR ''b'']
   \<and> all_labels (gather reversing_loads late_service 2 [''a'', ''b'', ''c''] [1, 0]
         (initial_state 3 2 no_files)) ! 0 = Some CHR ''a''
   \<and> all_labels (gather reversing_loads late_service 2 [''a'', ''b'', ''c''] [1, 0]
         (initial_state 3 2 no_files)) ! 1 = Some CHR ''b''
   \<and> mset (map get_id [(Some (IdInt 1), CHR ''b''), (Some (IdInt 0), CHR ''a'')])
       = mset (map (\<lambda>j. IdInt (int j)) [0..<2])"
proof -
  let ?texts = "[''a'', ''b'', ''c'']"
  let ?ds = "[(Some (IdInt 1), CHR ''b''), (Some (IdInt 0), CHR ''a'')]"
  let ?s = "initial_state 3 2 no_files :: char run_state"
  have B: "(1::nat) \<le> 2" by simp
  have rq: "requests (call_api (late_service (reviews_payload (batch_texts 2 ?texts 0)))) = 2"
    by code_simp
  have resp: "returned (call_api (late_service (reviews_payload (batch_texts 2 ?texts 0))))
      = Inr (Some ''ab'' # [])"
    by code_simp
  have parsed: "reversing_loads (strip_code_fence (py_strip ''ab''))
      = Some (JList (map (\<lambda>d. Object (fst d) (snd d)) ?ds))"
    by code_simp
  have len: "length ?ds = length (batch_texts 2 ?texts 0)" by code_simp
  have ints: "\<forall>d \<in> set ?ds. is_int (get_id d)" by (simp add: get_id_def)
  have order: "(0::nat) \<in> set [1, 0]" by simp
  have tab: "length (all_labels ?s) = length ?texts"
    by (simp add: initial_state_def load_checkpoint_def no_files_def)
  have perm: "mset (map get_id ?ds) = mset (map (\<lambda>j. IdInt (int j)) [0..<2])"
    by (simp add: get_id_def upt_rec)
  note r = reconcile_by_id [where B = 2 and texts = ?texts and b = 0
      and svc = late_service and content = "''ab''" and rest = "[]" and loads = reversing_loads
      and ds = ?ds and order = "[1, 0]" and s = ?s, OF B resp parsed len ints order tab]
  from r have a: "annotate reversing_loads late_service 2 ?texts 0
      = map (\<lambda>d. Some (snd d)) (sort_key (\<lambda>d. int_of (get_id d)) ?ds)"
    by blast
  have a': "annotate reversing_loads late_service 2 ?texts 0 = [Some CHR ''a'', Some CHR ''b'']"
    unfolding a by (simp add: get_id_def)
  from r have "\<forall>j < length ?ds.
           all_labels (gather reversing_loads late_service 2 ?texts [1, 0] ?s) ! (0 * 2 + j)
             = annotate reversing_loads late_service 2 ?texts 0 ! j"
    by blast
  then have "all_labels (gather reversing_loads late_service 2 ?texts [1, 0] ?s) ! (0 * 2 + 0)
             = annotate reversing_loads late_service 2 ?texts 0 ! 0"
    and "all_labels (gather reversing_loads late_service 2 ?texts [1, 0] ?s) ! (0 * 2 + 1)
             = annotate reversing_loads late_service 2 ?texts 0 ! 1"
    by simp_all
  with rq a' perm show ?thesis by simp
qed

text \<open>
  Claim C2 as stated fails: a reply in which both objects carry the id 0, and a reply with
  the id 7 and a missing id, are accepted and returned as labels, not rejected.
\<close>

theorem unverified_ids_counterexample:
  "labels (label_batch_async
      (\<lambda>content. Some (JList [Object (Some (IdInt 0)) CHR ''x'', Object (Some (IdInt 0)) CHR ''y'']))
      echo_service [''a'', ''b'']) = [Some CHR ''x'', Some CHR ''y'']
   \<and> labels (label_batch_async
      (\<lambda>content. Some (JList [Object (Some (IdInt 7)) CHR ''x'', Object None CHR ''y'']))
      echo_service [''a'', ''b'']) = [Some CHR ''y'', Some CHR ''x'']"
  by code_simp

subsection \<open>Runs of the tasks\<close>

lemma exec_invariant:
  assumes step: "\<And>a s s'. P s \<Longrightarrow> fire B texts loads reply a s = Some s' \<Longrightarrow> P s'"
  shows "P s \<Longrightarrow> exec B texts loads reply acts s = Some s' \<Longrightarrow> P s'"
proof (induction acts arbitrary: s)
  case Nil
  then show ?case by simp
next
  case (Cons a acts)
  from Cons.prems(2) obtain s1 where f: "fire B texts loads reply a s = Some s1"
    and e: "exec B texts loads reply acts s1 = Some s'"
    by (auto split: option.splits)
  from step [OF Cons.prems(1) f] have "P s1" .
  from Cons.IH [OF this e] show ?case .
qed

lemma filter_update_count:
  assumes "distinct T" "b \<in> set T"
  shows "length (filter (\<lambda>x. P ((f(b := p)) x)) T) + (if P (f b) then 1 else 0)
       = length (filter (\<lambda>x. P (f x)) T) + (if P p then 1 else 0)"
  using assms
proof (induction T)
  case Nil
  then show ?case by simp
next
  case (Cons x T)
  show ?case
  proof (cases "x = b")
    case True
    with Cons.prems have "b \<notin> set T" by simp
    then have "filter (\<lambda>x. P ((f(b := p)) x)) T = filter (\<lambda>x. P (f x)) T"
      by (intro filter_cong) auto
    with True show ?thesis by simp
  next
    case False
    with Cons.prems have "distinct T" "b \<in> set T" by simp_all
    from Cons.IH [OF this] False show ?thesis by simp
  qed
qed

text \<open>What every step leaves as it is, and the step in terms of one task.\<close>

lemma fire_pending:
  "fire B texts loads reply a s = Some s' \<Longrightarrow>
   pending_batches (vars s') = pending_batches (vars s)"
  by (auto simp: fire_def write_labels_def mark_completed_def count_processed_def
      save_periodically_def split: action.splits pc.splits if_splits)

lemma fire_cases:
  assumes "fire B texts loads reply a s = Some s'"
  obtains b p where "b \<in> set (pending_batches (vars s))" "pcs s' = (pcs s)(b := p)"
    "sem_value s' + (if in_flight p then 1 else 0)
       = sem_value s + (if in_flight (pcs s b) then 1 else 0)"
  using assms
  by (auto simp: fire_def split: action.splits pc.splits if_splits sum.splits)

lemma fire_sem:
  assumes d: "distinct (pending_batches (vars s))"
    and f: "fire B texts loads reply a s = Some s'"
  shows "count_tasks in_flight s' + sem_value s' = count_tasks in_flight s + sem_value s"
proof -
  from f obtain b p where b: "b \<in> set (pending_batches (vars s))"
    and p: "pcs s' = (pcs s)(b := p)"
    and v: "sem_value s' + (if in_flight p then 1 else 0)
       = sem_value s + (if in_flight (pcs s b) then 1 else 0)"
    by (rule fire_cases)
  from filter_update_count [OF d b, of in_flight "pcs s" p]
  have "count_tasks in_flight s' + (if in_flight (pcs s b) then 1 else 0)
      = count_tasks in_flight s + (if in_flight p then 1 else 0)"
    by (simp add: count_tasks_def p fire_pending [OF f])
  with v show ?thesis by (simp split: if_splits)
qed

lemma start_system_pending:
  "distinct (pending_batches (vars (start_system C (initial_state n nb fs))))"
  by (simp add: start_system_def initial_state_def split: option.splits)

text \<open>
  Claim C1. In every state that a run of the tasks can reach, whatever the service answers
  and however the steps of the tasks interleave, the number of tasks whose request is
  outstanding and the number of free permits add up to the limit \<open>MAX_CONCURRENCY\<close>; so at
  most that many requests are outstanding. A permit is taken in the step that sends the request and given
  back in the step that receives the answer, so a task that sleeps before a retry, reads its
  reply, waits for the lock or records its result holds none.
\<close>

theorem concurrency_bound:
  assumes "exec (BATCH_SIZE cfg) texts loads reply acts
             (start_system (MAX_CONCURRENCY cfg) (initial_state n nb fs)) = Some s"
  shows "count_tasks in_flight s + sem_value s = MAX_CONCURRENCY cfg
     \<and> count_tasks in_flight s \<le> MAX_CONCURRENCY cfg"
proof -
  let ?P = "\<lambda>s. distinct (pending_batches (vars s))
      \<and> count_tasks in_flight s + sem_value s = MAX_CONCURRENCY cfg"
  have "?P s"
  proof (rule exec_invariant [where P = ?P, OF _ _ assms])
    fix a s s'
    assume "?P s" and "fire (BATCH_SIZE cfg) texts loads reply a s = Some s'"
    then show "?P s'"
      using fire_sem [of s "BATCH_SIZE cfg" texts loads reply a s']
        fire_pending [of "BATCH_SIZE cfg" texts loads reply a s s']
      by simp
  next
    show "?P (start_system (MAX_CONCURRENCY cfg) (initial_state n nb fs))"
      using start_system_pending [of "MAX_CONCURRENCY cfg" n nb fs]
      by (simp add: count_tasks_def start_system_def)
  qed
  then show ?thesis by simp
qed

theorem concurrency_bound_witness:
  "count_tasks in_flight (the (exec (BATCH_SIZE serial_cfg) [''a'', ''b''] echo_loads flaky_reply
       [Acquire 0, Respond 0, Acquire 1]
       (start_system (MAX_CONCURRENCY serial_cfg) (initial_state 2 2 no_files)))) = 1
   \<and> sem_value (the (exec (BATCH_SIZE serial_cfg) [''a'', ''b''] echo_loads flaky_reply
       [Acquire 0, Respond 0, Acquire 1]
       (start_system (MAX_CONCURRENCY serial_cfg) (initial_state 2 2 no_files)))) = 0
   \<and> pcs (the (exec (BATCH_SIZE serial_cfg) [''a'', ''b''] echo_loads flaky_reply
       [Acquire 0, Respond 0, Acquire 1]
       (start_system (MAX_CONCURRENCY serial_cfg) (initial_state 2 2 no_files)))) 0 = Sleeping 1
   \<and> pcs (the (exec (BATCH_SIZE serial_cfg) [''a'', ''b''] echo_loads flaky_reply
       [Acquire 0, Respond 0, Acquire 1]
       (start_system (MAX_CONCURRENCY serial_cfg) (initial_state 2 2 no_files)))) 1 = InFlight 1
   \<and> exec (BATCH_SIZE serial_cfg) [''a'', ''b''] echo_loads flaky_reply
       [Acquire 0, Acquire 1]
       (start_system (MAX_CONCURRENCY serial_cfg) (initial_state 2 2 no_files)) = None"
proof -
  let ?e = "exec (BATCH_SIZE serial_cfg) [''a'', ''b''] echo_loads flaky_reply
       [Acquire 0, Respond 0, Acquire 1]
       (start_system (MAX_CONCURRENCY serial_cfg) (initial_state 2 2 no_files))"
  have "?e \<noteq> None" by code_simp
  then obtain s where s: "?e = Some s" by blast
  from concurrency_bound [OF s]
  have b: "count_tasks in_flight s + sem_value s = MAX_CONCURRENCY serial_cfg" by simp
  have c: "MAX_CONCURRENCY serial_cfg = 1" by (simp add: serial_cfg_def)
  have v: "sem_value (the ?e) = 0" by code_simp
  have p0: "pcs (the ?e) 0 = Sleeping 1" by code_simp
  have p1: "pcs (the ?e) 1 = InFlight 1" by code_simp
  have n: "exec (BATCH_SIZE serial_cfg) [''a'', ''b''] echo_loads flaky_reply
       [Acquire 0, Acquire 1]
       (start_system (MAX_CONCURRENCY serial_cfg) (initial_state 2 2 no_files)) = None"
    by code_simp
  from b c v p0 p1 n s show ?thesis by simp
qed

lemma fire_elims [consumes 1, case_names acquire respond wake parse lock writing mark count save]:
  assumes "fire B texts loads reply a s = Some s'"
  obtains
    b k where "a = Acquire b" "b \<in> set (pending_batches (vars s))" "pcs s b = Waiting k"
      "0 < sem_value s"
      "s' = s\<lparr>sem_value := sem_value s - 1, pcs := (pcs s)(b := InFlight k)\<rparr>"
  | b k p where "a = Respond b" "b \<in> set (pending_batches (vars s))" "pcs s b = InFlight k"
      "s' = s\<lparr>sem_value := sem_value s + 1, pcs := (pcs s)(b := p)\<rparr>"
      "(\<exists>r. p = Parsing r) \<or> p = Sleeping k"
  | b k where "a = Wake b" "b \<in> set (pending_batches (vars s))" "pcs s b = Sleeping k"
      "s' = s\<lparr>pcs := (pcs s)(b := Waiting (k + 1))\<rparr>"
  | b r where "a = Parse b" "b \<in> set (pending_batches (vars s))" "pcs s b = Parsing r"
      "s' = s\<lparr>pcs := (pcs s)(b := AtLock (labels_after loads (batch_texts B texts b) r))\<rparr>"
  | b ls where "a = Lock b" "b \<in> set (pending_batches (vars s))" "pcs s b = AtLock ls"
      "\<not> lock_locked s"
      "s' = s\<lparr>lock_locked := True, pcs := (pcs s)(b := Writing ls)\<rparr>"
  | b ls where "a = Write b" "b \<in> set (pending_batches (vars s))" "pcs s b = Writing ls"
      "s' = s\<lparr>pcs := (pcs s)(b := Marking ls),
               vars := write_labels B (length texts) b ls (vars s)\<rparr>"
  | b ls where "a = Mark b" "b \<in> set (pending_batches (vars s))" "pcs s b = Marking ls"
      "s' = s\<lparr>pcs := (pcs s)(b := Counting ls), vars := mark_completed b (vars s)\<rparr>"
  | b ls where "a = Count b" "b \<in> set (pending_batches (vars s))" "pcs s b = Counting ls"
      "s' = s\<lparr>pcs := (pcs s)(b := Saving ls), vars := count_processed (vars s)\<rparr>"
  | b ls where "a = Save b" "b \<in> set (pending_batches (vars s))" "pcs s b = Saving ls"
      "s' = s\<lparr>lock_locked := False, pcs := (pcs s)(b := Done ls),
               vars := save_periodically b (vars s)\<rparr>"
proof (cases a)
  case (Acquire b)
  with assms that(1) show ?thesis
    by (auto simp: fire_def split: pc.splits if_splits)
next
  case (Respond b)
  with assms that(2) show ?thesis
    by (auto simp: fire_def split: pc.splits if_splits sum.splits)
next
  case (Wake b)
  with assms that(3) show ?thesis
    by (auto simp: fire_def split: pc.splits if_splits)
next
  case (Parse b)
  with assms that(4) show ?thesis
    by (auto simp: fire_def split: pc.splits if_splits)
next
  case (Lock b)
  with assms that(5) show ?thesis
    by (auto simp: fire_def split: pc.splits if_splits)
next
  case (Write b)
  with assms that(6) show ?thesis
    by (auto simp: fire_def split: pc.splits if_splits)
next
  case (Mark b)
  with assms that(7) show ?thesis
    by (auto simp: fire_def split: pc.splits if_splits)
next
  case (Count b)
  with assms that(8) show ?thesis
    by (auto simp: fire_def split: pc.splits if_splits)
next
  case (Save b)
  with assms that(9) show ?thesis
    by (auto simp: fire_def split: pc.splits if_splits)
qed

lemma labels_after_length:
  "length (labels_after loads texts r) = length texts"
  by (auto simp: labels_after_def split: sum.splits dest: read_reply_length)

lemma critical_vars [simp]:
  "pending_batches (write_labels B n b ls v) = pending_batches v"
  "pending_batches (mark_completed b v) = pending_batches v"
  "pending_batches (count_processed v) = pending_batches v"
  "pending_batches (save_periodically b v) = pending_batches v"
  by (simp_all add: write_labels_def mark_completed_def count_processed_def save_periodically_def)

lemma tasks_okI:
  assumes "pending_batches (vars s) = pending_batches v0"
    and "\<And>b t. b \<in> set (pending_batches v0) \<Longrightarrow> t \<in> set (pending_batches v0) \<Longrightarrow>
           under_lock (pcs s b) \<Longrightarrow> under_lock (pcs s t) \<Longrightarrow> b = t"
    and "lock_locked s \<longleftrightarrow> (\<exists>b \<in> set (pending_batches v0). under_lock (pcs s b))"
    and "\<And>b. b \<in> set (pending_batches v0) \<Longrightarrow> has_labels (pcs s b) \<Longrightarrow>
           length (held_labels (pcs s b)) = length (batch_texts B texts b)"
  shows "tasks_ok B texts v0 s"
  unfolding tasks_ok_def using assms by blast

lemma tasks_okD:
  assumes "tasks_ok B texts v0 s"
  shows "pending_batches (vars s) = pending_batches v0"
    and "\<And>b t. b \<in> set (pending_batches v0) \<Longrightarrow> t \<in> set (pending_batches v0) \<Longrightarrow>
           under_lock (pcs s b) \<Longrightarrow> under_lock (pcs s t) \<Longrightarrow> b = t"
    and "lock_locked s \<longleftrightarrow> (\<exists>b \<in> set (pending_batches v0). under_lock (pcs s b))"
    and "\<And>b. b \<in> set (pending_batches v0) \<Longrightarrow> has_labels (pcs s b) \<Longrightarrow>
           length (held_labels (pcs s b)) = length (batch_texts B texts b)"
  using assms unfolding tasks_ok_def by blast+

lemma tasks_ok_update:
  assumes ok: "tasks_ok B texts v0 s"
    and p: "pcs s' = (pcs s)(b := p')" "pending_batches (vars s') = pending_batches (vars s)"
    and ul: "under_lock p' = under_lock (pcs s b)" "lock_locked s' = lock_locked s"
    and hl: "has_labels p' \<longrightarrow> length (held_labels p') = length (batch_texts B texts b)"
  shows "tasks_ok B texts v0 s'"
proof (rule tasks_okI)
  note d = tasks_okD [OF ok]
  have u: "under_lock (pcs s' x) = under_lock (pcs s x)" for x
    using p(1) ul(1) by simp
  show "pending_batches (vars s') = pending_batches v0" using p(2) d(1) by simp
  show "b1 = t" if "b1 \<in> set (pending_batches v0)" "t \<in> set (pending_batches v0)"
    "under_lock (pcs s' b1)" "under_lock (pcs s' t)" for b1 t
    using that d(2) [of b1 t] by (simp only: u)
  show "lock_locked s' \<longleftrightarrow> (\<exists>b \<in> set (pending_batches v0). under_lock (pcs s' b))"
    using d(3) by (simp only: u ul(2))
  show "length (held_labels (pcs s' x)) = length (batch_texts B texts x)"
    if "x \<in> set (pending_batches v0)" "has_labels (pcs s' x)" for x
  proof (cases "x = b")
    case True
    with that(2) hl p(1) show ?thesis by simp
  next
    case False
    with that d(4) [of x] p(1) show ?thesis by simp
  qed
qed

lemma tasks_ok_lock:
  assumes ok: "tasks_ok B texts v0 s" and b: "b \<in> set (pending_batches v0)"
    and p: "pcs s' = (pcs s)(b := p')" "pending_batches (vars s') = pending_batches (vars s)"
    and l: "\<not> lock_locked s" "lock_locked s'" "under_lock p'"
    and hl: "held_labels p' = held_labels (pcs s b)" "has_labels p' = has_labels (pcs s b)"
  shows "tasks_ok B texts v0 s'"
proof (rule tasks_okI)
  note d = tasks_okD [OF ok]
  from d(3) l(1) have none: "\<not> under_lock (pcs s x)" if "x \<in> set (pending_batches v0)" for x
    using that by blast
  have u: "under_lock (pcs s' x) \<longleftrightarrow> x = b" if "x \<in> set (pending_batches v0)" for x
    using none [OF that] p(1) l(3) by simp
  show "pending_batches (vars s') = pending_batches v0" using p(2) d(1) by simp
  show "b1 = t" if "b1 \<in> set (pending_batches v0)" "t \<in> set (pending_batches v0)"
    "under_lock (pcs s' b1)" "under_lock (pcs s' t)" for b1 t
    using that u by simp
  show "lock_locked s' \<longleftrightarrow> (\<exists>b \<in> set (pending_batches v0). under_lock (pcs s' b))"
    using l(2) b u [OF b] by blast
  show "length (held_labels (pcs s' x)) = length (batch_texts B texts x)"
    if "x \<in> set (pending_batches v0)" "has_labels (pcs s' x)" for x
  proof (cases "x = b")
    case True
    with that hl p(1) d(4) [of b] show ?thesis by simp
  next
    case False
    with that d(4) [of x] p(1) show ?thesis by simp
  qed
qed

lemma tasks_ok_unlock:
  assumes ok: "tasks_ok B texts v0 s" and b: "b \<in> set (pending_batches v0)"
    and p: "pcs s' = (pcs s)(b := p')" "pending_batches (vars s') = pending_batches (vars s)"
    and l: "under_lock (pcs s b)" "\<not> lock_locked s'" "\<not> under_lock p'"
    and hl: "held_labels p' = held_labels (pcs s b)" "has_labels p' = has_labels (pcs s b)"
  shows "tasks_ok B texts v0 s'"
proof (rule tasks_okI)
  note d = tasks_okD [OF ok]
  have u: "\<not> under_lock (pcs s' x)" if "x \<in> set (pending_batches v0)" for x
  proof (cases "x = b")
    case True
    with p(1) l(3) show ?thesis by simp
  next
    case False
    with d(2) [OF that b] l(1) have "\<not> under_lock (pcs s x)" by blast
    with False p(1) show ?thesis by simp
  qed
  show "pending_batches (vars s') = pending_batches v0" using p(2) d(1) by simp
  show "b1 = t" if "b1 \<in> set (pending_batches v0)" "t \<in> set (pending_batches v0)"
    "under_lock (pcs s' b1)" "under_lock (pcs s' t)" for b1 t
    using that u by blast
  show "lock_locked s' \<longleftrightarrow> (\<exists>b \<in> set (pending_batches v0). under_lock (pcs s' b))"
    using l(2) u by blast
  show "length (held_labels (pcs s' x)) = length (batch_texts B texts x)"
    if "x \<in> set (pending_batches v0)" "has_labels (pcs s' x)" for x
  proof (cases "x = b")
    case True
    with that hl p(1) d(4) [of b] show ?thesis by simp
  next
    case False
    with that d(4) [of x] p(1) show ?thesis by simp
  qed
qed

lemma tasks_ok_step:
  assumes ok: "tasks_ok B texts v0 s"
    and f: "fire B texts loads reply a s = Some s'"
  shows "tasks_ok B texts v0 s'"
  using f
proof (cases rule: fire_elims)
  case (acquire b k)
  then show ?thesis
    by (intro tasks_ok_update [OF ok, where b = b and p' = "InFlight k"]) simp_all
next
  case (respond b k p)
  then show ?thesis
    by (intro tasks_ok_update [OF ok, where b = b and p' = p]) auto
next
  case (wake b k)
  then show ?thesis
    by (intro tasks_ok_update [OF ok, where b = b and p' = "Waiting (k + 1)"]) simp_all
next
  case (parse b r)
  then show ?thesis
    by (intro tasks_ok_update [OF ok, where b = b
          and p' = "AtLock (labels_after loads (batch_texts B texts b) r)"])
       (simp_all add: labels_after_length)
next
  case (lock b ls)
  with tasks_okD(1) [OF ok] show ?thesis
    by (intro tasks_ok_lock [OF ok, where b = b and p' = "Writing ls"]) simp_all
next
  case (writing b ls)
  with tasks_okD(1) [OF ok] tasks_okD(4) [OF ok, of b] show ?thesis
    by (intro tasks_ok_update [OF ok, where b = b and p' = "Marking ls"]) auto
next
  case (mark b ls)
  with tasks_okD(1) [OF ok] tasks_okD(4) [OF ok, of b] show ?thesis
    by (intro tasks_ok_update [OF ok, where b = b and p' = "Counting ls"]) auto
next
  case (count b ls)
  with tasks_okD(1) [OF ok] tasks_okD(4) [OF ok, of b] show ?thesis
    by (intro tasks_ok_update [OF ok, where b = b and p' = "Saving ls"]) auto
next
  case (save b ls)
  with tasks_okD(1) [OF ok] show ?thesis
    by (intro tasks_ok_unlock [OF ok, where b = b and p' = "Done ls"]) simp_all
qed





lemma critical_vars_fields [simp]:
  "all_labels (mark_completed b v) = all_labels v"
  "all_labels (count_processed v) = all_labels v"
  "all_labels (save_periodically b v) = all_labels v"
  "completed_batches (write_labels B n b ls v) = completed_batches v"
  "completed_batches (count_processed v) = completed_batches v"
  "completed_batches (save_periodically b v) = completed_batches v"
  "processed_count (write_labels B n b ls v) = processed_count v"
  "processed_count (mark_completed b v) = processed_count v"
  "processed_count (save_periodically b v) = processed_count v"
  "disk (write_labels B n b ls v) = disk v"
  "disk (mark_completed b v) = disk v"
  "disk (count_processed v) = disk v"
  by (simp_all add: write_labels_def mark_completed_def count_processed_def save_periodically_def)








lemma critical_section_record_batch:
  "save_periodically b (count_processed (mark_completed b (write_labels B n b ls v)))
     = record_batch B n b ls v"
  by (simp add: save_periodically_def count_processed_def mark_completed_def write_labels_def
      record_batch_def Let_def)









subsection \<open>Interleaved runs and schedules\<close>

lemma retryable_iff: "retryable r \<longleftrightarrow> (\<exists>e. r = Inl (Inl e))"
  by (cases r rule: retryable.cases) simp_all

lemma attempts_skip:
  assumes "1 \<le> k" "\<forall>j. 1 \<le> j \<and> j < k \<longrightarrow> retryable (reply j) \<and> \<not> call_api_stop j"
  shows "returned (attempts reply 1) = returned (attempts reply k)"
  using assms
proof (induction k)
  case 0
  then show ?case by simp
next
  case (Suc k)
  show ?case
  proof (cases "k = 0")
    case True
    then show ?thesis by simp
  next
    case False
    then have k: "1 \<le> k" by simp
    from Suc.prems(2) have "\<forall>j. 1 \<le> j \<and> j < k \<longrightarrow> retryable (reply j) \<and> \<not> call_api_stop j"
      by simp
    from Suc.IH [OF k this] have ih: "returned (attempts reply 1) = returned (attempts reply k)" .
    from Suc.prems(2) k have "retryable (reply k)" "\<not> call_api_stop k" by simp_all
    then obtain e where e: "reply k = Inl (Inl e)" by (auto simp: retryable_iff)
    have "attempts reply k
        = (attempts reply (k + 1))\<lparr>sleeps := call_api_wait k # sleeps (attempts reply (k + 1))\<rparr>"
      using e \<open>\<not> call_api_stop k\<close> by (rule attempts_retry)
    then have "returned (attempts reply k) = returned (attempts reply (Suc k))" by simp
    with ih show ?thesis by simp
  qed
qed

lemma respond_result:
  assumes k: "1 \<le> k" "\<forall>j. 1 \<le> j \<and> j < k \<longrightarrow> retryable (reply j) \<and> \<not> call_api_stop j"
  shows "reply k = Inr resp \<Longrightarrow> call_result reply = Inr resp"
    and "reply k = Inl (Inr e) \<Longrightarrow> call_result reply = Inl e"
    and "reply k = Inl (Inl x) \<Longrightarrow> call_api_stop k \<Longrightarrow> call_result reply = Inl RetryError"
  using attempts_skip [OF k]
  by (simp_all add: call_result_def call_api_def attempts_response attempts_fatal attempts_stop)

lemma fire_respond:
  assumes "fire B texts loads reply (Respond b) s = Some s'" "pcs s b = InFlight k"
  shows "pcs s' b = (case reply b k of
              Inr resp \<Rightarrow> Parsing (Inr resp)
            | Inl (Inr e) \<Rightarrow> Parsing (Inl e)
            | Inl (Inl e) \<Rightarrow> if call_api_stop k then Parsing (Inl RetryError) else Sleeping k)"
  using assms by (auto simp: fire_def split: if_splits)

lemma attempt_ok_step:
  assumes ok: "\<forall>x. attempt_ok B texts loads reply x (pcs s x)"
    and f: "fire B texts loads reply a s = Some s'"
  shows "\<forall>x. attempt_ok B texts loads reply x (pcs s' x)"
  using f
proof (cases rule: fire_elims)
  case (acquire b k)
  with ok [rule_format, of b] show ?thesis using ok by simp
next
  case (respond b k p)
  from ok [rule_format, of b] respond(3)
  have k: "1 \<le> k" "\<forall>j. 1 \<le> j \<and> j < k \<longrightarrow> retryable (reply b j) \<and> \<not> call_api_stop j"
    by simp_all
  from f respond(1,3) have p': "pcs s' b = (case reply b k of
              Inr resp \<Rightarrow> Parsing (Inr resp)
            | Inl (Inr e) \<Rightarrow> Parsing (Inl e)
            | Inl (Inl e) \<Rightarrow> if call_api_stop k then Parsing (Inl RetryError) else Sleeping k)"
    using fire_respond by blast
  have "attempt_ok B texts loads reply b (pcs s' b)"
  proof (cases "reply b k")
    case (Inr resp)
    with p' respond_result(1) [OF k, of resp] show ?thesis by simp
  next
    case (Inl err)
    show ?thesis
    proof (cases err)
      case (Inr e)
      with Inl p' respond_result(2) [OF k, of e] show ?thesis by simp
    next
      case Inl2: (Inl x)
      show ?thesis
      proof (cases "call_api_stop k")
        case True
        with Inl Inl2 p' respond_result(3) [OF k, of x] show ?thesis by simp
      next
        case False
        have "retryable (reply b j) \<and> \<not> call_api_stop j" if "1 \<le> j \<and> j < k + 1" for j
        proof (cases "j = k")
          case True
          with Inl Inl2 False show ?thesis by simp
        next
          case F: False
          with that k(2) show ?thesis by simp
        qed
        with Inl Inl2 False p' k(1) show ?thesis by simp
      qed
    qed
  qed
  moreover have "pcs s' x = pcs s x" if "x \<noteq> b" for x using respond(4) that by simp
  ultimately show ?thesis using ok by metis
next
  case (wake b k)
  with ok [rule_format, of b] show ?thesis using ok by simp
next
  case (parse b r)
  with ok [rule_format, of b] show ?thesis using ok by (simp add: task_labels_def)
next
  case (lock b ls)
  with ok [rule_format, of b] show ?thesis using ok by simp
next
  case (writing b ls)
  with ok [rule_format, of b] show ?thesis using ok by simp
next
  case (mark b ls)
  with ok [rule_format, of b] show ?thesis using ok by simp
next
  case (count b ls)
  with ok [rule_format, of b] show ?thesis using ok by simp
next
  case (save b ls)
  with ok [rule_format, of b] show ?thesis using ok by simp
qed

lemma completions_snoc: "completions (h @ [a]) = completions h @ saved a"
  by (simp add: completions_def)

lemma recorded_snoc:
  "recorded B texts loads reply (order @ [b]) v0
     = record_batch B (length texts) b (task_labels B texts loads reply b)
         (recorded B texts loads reply order v0)"
  by (simp add: recorded_def)

lemma midway_under_lock: "midway p \<Longrightarrow> under_lock p"
  by (cases p) simp_all

text \<open>A step outside the part of the block that changes the variables.\<close>

lemma history_ok_update:
  assumes ok: "history_ok B texts loads reply v0 h s"
    and p: "pcs s' = (pcs s)(b := p')" "vars s' = vars s" "saved a = []"
    and m: "\<not> midway (pcs s b)" "\<not> midway p'" "\<not> is_done (pcs s b)" "\<not> is_done p'"
  shows "history_ok B texts loads reply v0 (h @ [a]) s'"
proof -
  have mw: "midway (pcs s' x) = midway (pcs s x)" for x using p(1) m(1,2) by simp
  have dn: "is_done (pcs s' x) = is_done (pcs s x)" for x using p(1) m(3,4) by simp
  have pt: "midway (pcs s x) \<Longrightarrow> pcs s' x = pcs s x" for x using p(1) m(1) by auto
  have c: "completions (h @ [a]) = completions h" using p(3) by (simp add: completions_snoc)
  from ok show ?thesis
    unfolding history_ok_def c mw dn p(2) using pt by auto
qed

lemma history_okI:
  assumes "\<And>x. x \<in> set (pending_batches v0) \<Longrightarrow> midway (pcs s x) \<Longrightarrow>
        vars s = partly B (length texts) x (pcs s x)
                   (recorded B texts loads reply (completions h) v0)"
    and "(\<forall>x \<in> set (pending_batches v0). \<not> midway (pcs s x)) \<Longrightarrow>
        vars s = recorded B texts loads reply (completions h) v0"
    and "distinct (completions h)"
    and "set (completions h) = {b \<in> set (pending_batches v0). is_done (pcs s b)}"
  shows "history_ok B texts loads reply v0 h s"
  unfolding history_ok_def using assms by blast

lemma history_okD:
  assumes "history_ok B texts loads reply v0 h s"
  shows "\<And>x. x \<in> set (pending_batches v0) \<Longrightarrow> midway (pcs s x) \<Longrightarrow>
        vars s = partly B (length texts) x (pcs s x)
                   (recorded B texts loads reply (completions h) v0)"
    and "(\<forall>x \<in> set (pending_batches v0). \<not> midway (pcs s x)) \<Longrightarrow>
        vars s = recorded B texts loads reply (completions h) v0"
    and "distinct (completions h)"
    and "set (completions h) = {b \<in> set (pending_batches v0). is_done (pcs s b)}"
  using assms unfolding history_ok_def by blast+

text \<open>A step inside the block: the task \<open>b\<close> is the only one under the lock.\<close>

lemma history_ok_inside:
  assumes ok: "history_ok B texts loads reply v0 h s" and t: "tasks_ok B texts v0 s"
    and b: "b \<in> set (pending_batches v0)" and ul: "under_lock (pcs s b)"
    and p: "pcs s' = (pcs s)(b := p')" "saved a = []" "midway p'" "\<not> is_done p'"
    and v: "vars s' = partly B (length texts) b p'
                        (recorded B texts loads reply (completions h) v0)"
  shows "history_ok B texts loads reply v0 (h @ [a]) s'"
proof (rule history_okI)
  note d = history_okD [OF ok]
  have c: "completions (h @ [a]) = completions h" using p(2) by (simp add: completions_snoc)
  have other: "\<not> under_lock (pcs s x)" if "x \<in> set (pending_batches v0)" "x \<noteq> b" for x
    using tasks_okD(2) [OF t that(1) b] ul that(2) by blast
  show "vars s' = partly B (length texts) x (pcs s' x)
                   (recorded B texts loads reply (completions (h @ [a])) v0)"
    if "x \<in> set (pending_batches v0)" "midway (pcs s' x)" for x
  proof (cases "x = b")
    case True
    with v p(1) show ?thesis by (simp add: c)
  next
    case False
    with other [OF that(1)] p(1) that(2) midway_under_lock [of "pcs s x"] show ?thesis by simp
  qed
  show "vars s' = recorded B texts loads reply (completions (h @ [a])) v0"
    if "\<forall>x \<in> set (pending_batches v0). \<not> midway (pcs s' x)"
    using that b p(1,3) by auto
  show "distinct (completions (h @ [a]))" using d(3) by (simp add: c)
  have "is_done (pcs s' x) = is_done (pcs s x)" for x
    using p(1,4) ul by (cases "x = b") (auto elim: is_done.elims)
  then show "set (completions (h @ [a])) = {b \<in> set (pending_batches v0). is_done (pcs s' b)}"
    using d(4) by (simp add: c)
qed

lemma history_ok_step:
  assumes t: "tasks_ok B texts v0 s"
    and at: "\<forall>x. attempt_ok B texts loads reply x (pcs s x)"
    and ok: "history_ok B texts loads reply v0 h s"
    and f: "fire B texts loads reply a s = Some s'"
  shows "history_ok B texts loads reply v0 (h @ [a]) s'"
  using f
proof (cases rule: fire_elims)
  case (acquire b k)
  then show ?thesis
    by (intro history_ok_update [OF ok, where b = b and p' = "InFlight k"]) simp_all
next
  case (respond b k p)
  then show ?thesis
    by (intro history_ok_update [OF ok, where b = b and p' = p]) auto
next
  case (wake b k)
  then show ?thesis
    by (intro history_ok_update [OF ok, where b = b and p' = "Waiting (k + 1)"]) simp_all
next
  case (parse b r)
  then show ?thesis
    by (intro history_ok_update [OF ok, where b = b
          and p' = "AtLock (labels_after loads (batch_texts B texts b) r)"]) simp_all
next
  case (lock b ls)
  then show ?thesis
    by (intro history_ok_update [OF ok, where b = b and p' = "Writing ls"]) simp_all
next
  case (writing b ls)
  from writing(2) tasks_okD(1) [OF t] have bT: "b \<in> set (pending_batches v0)" by simp
  have "\<not> midway (pcs s x)" if "x \<in> set (pending_batches v0)" for x
  proof (cases "x = b")
    case True
    with writing(3) show ?thesis by simp
  next
    case False
    with tasks_okD(2) [OF t that bT] writing(3) midway_under_lock [of "pcs s x"]
    show ?thesis by auto
  qed
  with history_okD(2) [OF ok]
  have "vars s = recorded B texts loads reply (completions h) v0" by blast
  with writing show ?thesis
    by (intro history_ok_inside [OF ok t bT, where p' = "Marking ls"]) simp_all
next
  case (mark b ls)
  from mark(2) tasks_okD(1) [OF t] have bT: "b \<in> set (pending_batches v0)" by simp
  from history_okD(1) [OF ok bT] mark(3)
  have "vars s = write_labels B (length texts) b ls
      (recorded B texts loads reply (completions h) v0)" by simp
  with mark show ?thesis
    by (intro history_ok_inside [OF ok t bT, where p' = "Counting ls"]) simp_all
next
  case (count b ls)
  from count(2) tasks_okD(1) [OF t] have bT: "b \<in> set (pending_batches v0)" by simp
  from history_okD(1) [OF ok bT] count(3)
  have "vars s = mark_completed b (write_labels B (length texts) b ls
      (recorded B texts loads reply (completions h) v0))" by simp
  with count show ?thesis
    by (intro history_ok_inside [OF ok t bT, where p' = "Saving ls"]) simp_all
next
  case (save b ls)
  note d = history_okD [OF ok]
  from save(2) tasks_okD(1) [OF t] have bT: "b \<in> set (pending_batches v0)" by simp
  from at [rule_format, of b] save(3) have ls: "ls = task_labels B texts loads reply b" by simp
  from d(1) [OF bT] save(3)
  have "vars s = count_processed (mark_completed b (write_labels B (length texts) b ls
      (recorded B texts loads reply (completions h) v0)))" by simp
  then have v: "vars s' = recorded B texts loads reply (completions (h @ [a])) v0"
    using save(1,4) ls
    by (simp add: completions_snoc recorded_snoc critical_section_record_batch)
  have other: "\<not> under_lock (pcs s x)" if "x \<in> set (pending_batches v0)" "x \<noteq> b" for x
    using tasks_okD(2) [OF t that(1) bT] save(3) that(2) by auto
  have nm: "\<not> midway (pcs s' x)" if "x \<in> set (pending_batches v0)" for x
  proof (cases "x = b")
    case True
    with save(4) show ?thesis by simp
  next
    case False
    with other [OF that] save(4) midway_under_lock [of "pcs s x"] show ?thesis by auto
  qed
  have nd: "b \<notin> set (completions h)" using d(4) save(3) by simp
  have dn: "{x \<in> set (pending_batches v0). is_done (pcs s' x)}
      = insert b {x \<in> set (pending_batches v0). is_done (pcs s x)}"
    using bT save(3,4) by auto
  show ?thesis
  proof (rule history_okI)
    show "vars s' = partly B (length texts) x (pcs s' x)
                   (recorded B texts loads reply (completions (h @ [a])) v0)"
      if "x \<in> set (pending_batches v0)" "midway (pcs s' x)" for x
      using nm that by blast
    show "vars s' = recorded B texts loads reply (completions (h @ [a])) v0" by (rule v)
    show "distinct (completions (h @ [a]))"
      using d(3) nd save(1) by (simp add: completions_snoc)
    show "set (completions (h @ [a])) = {b \<in> set (pending_batches v0). is_done (pcs s' b)}"
      using d(4) dn save(1) by (simp add: completions_snoc)
  qed
qed

lemma exec_history:
  assumes step: "\<And>h a s s'. P h s \<Longrightarrow> fire B texts loads reply a s = Some s' \<Longrightarrow> P (h @ [a]) s'"
  shows "P h s \<Longrightarrow> exec B texts loads reply acts s = Some s' \<Longrightarrow> P (h @ acts) s'"
proof (induction acts arbitrary: h s)
  case Nil
  then show ?case by simp
next
  case (Cons a acts)
  from Cons.prems(2) obtain s1 where f: "fire B texts loads reply a s = Some s1"
    and e: "exec B texts loads reply acts s1 = Some s'"
    by (auto split: option.splits)
  from step [OF Cons.prems(1) f] have "P (h @ [a]) s1" .
  from Cons.IH [OF this e] show ?case by simp
qed

lemma task_labels_annotate:
  "task_labels B texts loads (\<lambda>b k. svc (reviews_payload (batch_texts B texts b)) k) b
     = annotate loads svc B texts b"
  by (simp add: task_labels_def call_result_def annotate_def label_batch_async_def
      labels_after_def Let_def)

lemma record_batch_requests:
  "record_batch B n b ls (v\<lparr>api_requests := r\<rparr>) = (record_batch B n b ls v)\<lparr>api_requests := r\<rparr>"
  by (simp add: record_batch_def Let_def)

lemma gather_recorded:
  "(gather loads svc B texts order v)\<lparr>api_requests := r\<rparr>
     = recorded B texts loads (\<lambda>b k. svc (reviews_payload (batch_texts B texts b)) k) order
         (v\<lparr>api_requests := r\<rparr>)"
proof (induction order arbitrary: v)
  case Nil
  then show ?case by (simp add: gather_def recorded_def)
next
  case (Cons b order)
  let ?reply = "\<lambda>b k. svc (reviews_payload (batch_texts B texts b)) k"
  let ?ls = "task_labels B texts loads ?reply b"
  have h: "(handle_batch loads svc B texts b v)\<lparr>api_requests := r\<rparr>
      = record_batch B (length texts) b ?ls (v\<lparr>api_requests := r\<rparr>)"
    by (simp add: handle_batch_def Let_def task_labels_annotate annotate_def
        record_batch_requests)
  have "(gather loads svc B texts (b # order) v)\<lparr>api_requests := r\<rparr>
      = (gather loads svc B texts order (handle_batch loads svc B texts b v))\<lparr>api_requests := r\<rparr>"
    by (simp add: gather_def)
  also have "\<dots> = recorded B texts loads ?reply order
      ((handle_batch loads svc B texts b v)\<lparr>api_requests := r\<rparr>)"
    by (rule Cons.IH)
  also have "\<dots> = recorded B texts loads ?reply (b # order) (v\<lparr>api_requests := r\<rparr>)"
    by (simp add: h recorded_def)
  finally show ?case .
qed

text \<open>
  The schedules of \<open>main_async\<close> are what the interleaved tasks do. When the service is a
  function of the request and the attempt, every run of the tasks that has come to a state
  with the lock free has the shared variables that \<open>gather\<close> gives for the batches in the
  order in which their tasks left the lock (the count of requests apart, which the tasks do
  not keep); these are the tasks that are done, each once.
\<close>

theorem interleaving_is_schedule:
  fixes loads :: "string \<Rightarrow> 'a document option"
  assumes run: "exec B texts loads (\<lambda>b k. svc (reviews_payload (batch_texts B texts b)) k) acts
                  (start_system C v0) = Some s"
    and free: "\<not> lock_locked s"
  shows "vars s = (gather loads svc B texts (completions acts) v0)\<lparr>api_requests := api_requests v0\<rparr>
     \<and> distinct (completions acts)
     \<and> set (completions acts) = {b \<in> set (pending_batches v0). is_done (pcs s b)}"
proof -
  let ?reply = "\<lambda>b k. svc (reviews_payload (batch_texts B texts b)) k"
  let ?P = "\<lambda>h s. tasks_ok B texts v0 s
      \<and> (\<forall>x. attempt_ok B texts loads ?reply x (pcs s x))
      \<and> history_ok B texts loads ?reply v0 h s"
  have init: "?P [] (start_system C v0)"
    by (simp add: tasks_ok_def history_ok_def start_system_def completions_def recorded_def)
  have "?P ([] @ acts) s"
  proof (rule exec_history [where P = ?P, OF _ init run])
    fix h a s s'
    assume P: "?P h s" and f: "fire B texts loads ?reply a s = Some s'"
    from P have p1: "tasks_ok B texts v0 s"
      and p2: "\<forall>x. attempt_ok B texts loads ?reply x (pcs s x)"
      and p3: "history_ok B texts loads ?reply v0 h s"
      by simp_all
    have "tasks_ok B texts v0 s'" using p1 f by (rule tasks_ok_step)
    moreover have "\<forall>x. attempt_ok B texts loads ?reply x (pcs s' x)"
      using p2 f by (rule attempt_ok_step)
    moreover have "history_ok B texts loads ?reply v0 (h @ [a]) s'"
      using p1 p2 p3 f by (rule history_ok_step)
    ultimately show "?P (h @ [a]) s'" by simp
  qed
  then have t: "tasks_ok B texts v0 s" and h: "history_ok B texts loads ?reply v0 acts s"
    by simp_all
  from tasks_okD(3) [OF t] free
  have "\<forall>b \<in> set (pending_batches v0). \<not> midway (pcs s b)"
    using midway_under_lock by blast
  with history_okD(2) [OF h]
  have "vars s = recorded B texts loads ?reply (completions acts) v0" by blast
  also have "\<dots> = recorded B texts loads ?reply (completions acts)
      (v0\<lparr>api_requests := api_requests v0\<rparr>)" by simp
  also have "\<dots> = (gather loads svc B texts (completions acts) v0)\<lparr>api_requests := api_requests v0\<rparr>"
    by (rule gather_recorded [symmetric])
  finally show ?thesis using history_okD(3,4) [OF h] by blast
qed

end
